theory Spec2Isabelle
  imports Main "HOL-Library.Multiset"
begin

section \<open>Kinesis stream handler: discovery and bulk deletion\<close>

text \<open>
  A shallow embedding of \<^verbatim>\<open>aws/resources/kinesis_stream.go\<close>: the discovery loop
  \<^verbatim>\<open>getAll\<close>, the coordinator \<^verbatim>\<open>nukeAll\<close> and the goroutine body
  \<^verbatim>\<open>deleteAsync\<close>. A Go \<^verbatim>\<open>*string\<close> is a \<open>string option\<close> (\<open>None\<close> is the nil
  pointer), a Go \<^verbatim>\<open>error\<close> value is an \<open>error option\<close> (\<open>None\<close> is nil).
\<close>

subsection \<open>Errors\<close>

text \<open>
  \<open>ApiError c\<close> is an error returned by the AWS SDK client, identified by its code;
  \<open>TooManyStreamsErr\<close> is the custom error of this file; \<open>MultiError es\<close> is a
  \<^verbatim>\<open>*multierror.Error\<close> with its \<^verbatim>\<open>Errors\<close> field; \<open>WithStackTrace e\<close> is the
  wrapper that \<^verbatim>\<open>errors.WithStackTrace\<close> puts around a non-nil error.
\<close>

datatype error =
    ApiError string
  | TooManyStreamsErr
  | MultiError "error list"
  | WithStackTrace error

definition TooManyStreamsErr_Error :: string where
  "TooManyStreamsErr_Error = ''Too many Streams requested at once.''"

definition OperationAbortedException :: string where
  "OperationAbortedException = ''OperationAbortedException''"

definition aws_String :: "string \<Rightarrow> string option" where
  "aws_String v = Some v"

definition aws_ToString :: "string option \<Rightarrow> string" where
  "aws_ToString p = (case p of None \<Rightarrow> [] | Some v \<Rightarrow> v)"

text \<open>
  \<^verbatim>\<open>multierror.Append(allErrs, err)\<close> for a non-nil \<^verbatim>\<open>err\<close>: a nil accumulator
  becomes a fresh one, a multi-error argument is flattened, anything else is appended.
  The accumulator \<^verbatim>\<open>*multierror.Error\<close> is an \<open>error list option\<close>.
\<close>

fun multierror_Append :: "error list option \<Rightarrow> error \<Rightarrow> error list option" where
  "multierror_Append allErrs (MultiError es) =
     Some ((case allErrs of None \<Rightarrow> [] | Some xs \<Rightarrow> xs) @ es)"
| "multierror_Append allErrs e =
     Some ((case allErrs of None \<Rightarrow> [] | Some xs \<Rightarrow> xs) @ [e])"

definition ErrorOrNil :: "error list option \<Rightarrow> error option" where
  "ErrorOrNil allErrs =
     (case allErrs of
        None \<Rightarrow> None
      | Some es \<Rightarrow> if length es = 0 then None else Some (MultiError es))"

subsection \<open>Discovery: getAll\<close>

text \<open>
  Modelled from the spec: \<^verbatim>\<open>config.ResourceValue\<close>, the argument of the inclusion
  predicate \<^verbatim>\<open>ShouldInclude\<close>, is declared outside this file; the spec describes the
  predicate as one over resource name and tag values. A field the composite literal
  does not set has Go's zero value: the nil map, here the empty map.
\<close>

record ResourceValue =
  Name :: "string option"
  Tags :: "string \<rightharpoonup> string"

record ListStreamsOutput =
  StreamNames :: "string list"

text \<open>The inner loop over \<^verbatim>\<open>page.StreamNames\<close>, appending to \<^verbatim>\<open>allStreams\<close>.\<close>

fun scan_page :: "(ResourceValue \<Rightarrow> bool) \<Rightarrow> string list \<Rightarrow> string option list
    \<Rightarrow> string option list" where
  "scan_page ShouldInclude [] allStreams = allStreams"
| "scan_page ShouldInclude (stream # rest) allStreams =
     scan_page ShouldInclude rest
       (if ShouldInclude \<lparr>Name = aws_String stream, Tags = Map.empty\<rparr>
        then allStreams @ [aws_String stream] else allStreams)"

text \<open>
  The paginator belongs to the SDK: its two operations are parameters. \<open>HasMorePages q\<close>
  reads the paginator state \<open>q\<close>; \<open>NextPage q\<close> returns the page or the error, and the
  next paginator state. The loop runs as long as the paginator has pages, so it is a
  partial function: \<open>None\<close> is a loop that never returns.
\<close>

partial_function (option) getAll_loop ::
  "('q \<Rightarrow> bool) \<Rightarrow> ('q \<Rightarrow> (string + ListStreamsOutput) \<times> 'q) \<Rightarrow> (ResourceValue \<Rightarrow> bool)
     \<Rightarrow> 'q \<Rightarrow> string option list \<Rightarrow> (string option list \<times> error option) option" where
  "getAll_loop HasMorePages NextPage ShouldInclude q allStreams =
     (if HasMorePages q then
        (case NextPage q of
           (Inl err, q') \<Rightarrow> Some ([], Some (WithStackTrace (ApiError err)))
         | (Inr page, q') \<Rightarrow>
             getAll_loop HasMorePages NextPage ShouldInclude q'
               (scan_page ShouldInclude (StreamNames page) allStreams))
      else Some (allStreams, None))"

definition getAll ::
  "('q \<Rightarrow> bool) \<Rightarrow> ('q \<Rightarrow> (string + ListStreamsOutput) \<times> 'q) \<Rightarrow> (ResourceValue \<Rightarrow> bool)
     \<Rightarrow> 'q \<Rightarrow> (string option list \<times> error option) option" where
  "getAll HasMorePages NextPage ShouldInclude q =
     getAll_loop HasMorePages NextPage ShouldInclude q []"

text \<open>
  What the provider serves through a paginator, from state \<open>q\<close> on: the pages fetched
  with success, then either the end of the pages (\<open>None\<close>) or the error of the fetch that
  failed.
\<close>

inductive serves ::
  "('q \<Rightarrow> bool) \<Rightarrow> ('q \<Rightarrow> (string + ListStreamsOutput) \<times> 'q) \<Rightarrow> 'q
     \<Rightarrow> ListStreamsOutput list \<Rightarrow> string option \<Rightarrow> bool" where
  serves_end: "\<not> HasMorePages q \<Longrightarrow> serves HasMorePages NextPage q [] None"
| serves_fail: "HasMorePages q \<Longrightarrow> NextPage q = (Inl err, q')
     \<Longrightarrow> serves HasMorePages NextPage q [] (Some err)"
| serves_page: "HasMorePages q \<Longrightarrow> NextPage q = (Inr page, q')
     \<Longrightarrow> serves HasMorePages NextPage q' pages r
     \<Longrightarrow> serves HasMorePages NextPage q (page # pages) r"

code_pred serves .

text \<open>A fake paginator for concrete runs: its state is the list of responses left.\<close>

definition fake_HasMorePages :: "(string + ListStreamsOutput) list \<Rightarrow> bool" where
  "fake_HasMorePages q = (q \<noteq> [])"

definition fake_NextPage :: "(string + ListStreamsOutput) list
    \<Rightarrow> (string + ListStreamsOutput) \<times> (string + ListStreamsOutput) list" where
  "fake_NextPage q = (case q of [] \<Rightarrow> (Inl ''no more pages available'', []) | r # rest \<Rightarrow> (r, rest))"

fun fake_pages :: "(string + ListStreamsOutput) list \<Rightarrow> ListStreamsOutput list" where
  "fake_pages [] = []"
| "fake_pages (Inl e # rest) = []"
| "fake_pages (Inr page # rest) = page # fake_pages rest"

fun fake_error :: "(string + ListStreamsOutput) list \<Rightarrow> string option" where
  "fake_error [] = None"
| "fake_error (Inl e # rest) = Some e"
| "fake_error (Inr page # rest) = fake_error rest"

subsection \<open>Bulk deletion: shared state\<close>

record Entry =
  Identifier :: string
  ResourceType :: string
  Error :: "error option"

text \<open>
  Modelled from the spec: \<^verbatim>\<open>report.Record\<close> is declared outside this file. The spec
  describes the report sink as append-only and safe under concurrent writes, with no
  entry lost: a call appends its entry in one atomic step.
\<close>

definition report_Record :: "Entry \<Rightarrow> Entry list \<Rightarrow> Entry list" where
  "report_Record e sink = sink @ [e]"

text \<open>A log line: the level, the format string and its arguments.\<close>

datatype log_arg = Str string | Err error

datatype log_line = Debugf string "log_arg list" | Errorf string "log_arg list"

text \<open>
  The handler: its region and the one client operation that deletion uses. The client
  acts on the provider's state \<open>'p\<close>; it returns the SDK's error code or none, and the
  provider's next state. \<open>None\<close> is a call that never returns.
\<close>

record 'p KinesisStreams =
  Region :: string
  Client_DeleteStream :: "'p \<Rightarrow> string option \<Rightarrow> (string option \<times> 'p) option"

text \<open>
  One frame of \<^verbatim>\<open>deleteAsync\<close>: the program point, the parameters
  \<^verbatim>\<open>streamName\<close> and \<^verbatim>\<open>errChan\<close> (the channel created at that index of
  \<^verbatim>\<open>errChans\<close>) and the local \<^verbatim>\<open>err\<close>. The frame of a goroutine that has
  returned stays in the state at \<open>T_Exit\<close>.
\<close>

datatype task_pc =
    T_DeleteStream  \<comment> \<open>about to issue \<^verbatim>\<open>ks.Client.DeleteStream\<close>\<close>
  | T_Await         \<comment> \<open>request issued, waiting for the call to return\<close>
  | T_Record        \<comment> \<open>about to call \<^verbatim>\<open>report.Record(e)\<close>\<close>
  | T_Send          \<comment> \<open>about to send \<^verbatim>\<open>errChan <- err\<close>\<close>
  | T_Log           \<comment> \<open>about to log the outcome\<close>
  | T_WgDone        \<comment> \<open>about to run the deferred \<^verbatim>\<open>wg.Done()\<close>\<close>
  | T_Exit          \<comment> \<open>returned\<close>

record task =
  t_pc :: task_pc
  t_streamName :: "string option"
  t_errChan :: nat
  t_err :: "error option"

text \<open>
  The program points of \<^verbatim>\<open>nukeAll\<close>: the entry (both length checks, \<^verbatim>\<open>wg.Add\<close>
  and the allocation of \<^verbatim>\<open>errChans\<close>, all before any goroutine exists), the launch
  loop at index \<open>i\<close>, \<^verbatim>\<open>wg.Wait()\<close>, the collection loop at index \<open>i\<close> with the
  accumulator \<^verbatim>\<open>allErrs\<close>, and the return with its value.
\<close>

datatype main_pc =
    M_Start
  | M_Spawn nat
  | M_Wait
  | M_Collect nat "error list option"
  | M_Return "error option"

text \<open>
  The shared state. A channel is the list of values in its buffer; an element of
  \<^verbatim>\<open>errChans\<close> is \<open>None\<close> while it is the nil channel. \<open>requests\<close> lists the
  \<^verbatim>\<open>DeleteStream\<close> calls issued, \<open>reports\<close> is the report sink, both in the order of
  the events.
\<close>

record 'p state =
  provider :: 'p
  requests :: "string option list"
  reports :: "Entry list"
  logs :: "log_line list"
  wg :: int
  errChans :: "error option list option list"
  tasks :: "task list"
  mainpc :: main_pc

definition init :: "'p \<Rightarrow> 'p state" where
  "init p0 = \<lparr>provider = p0, requests = [], reports = [], logs = [], wg = 0,
     errChans = [], tasks = [], mainpc = M_Start\<rparr>"

subsection \<open>deleteAsync, one step at a time\<close>

definition chan_capacity :: nat where
  "chan_capacity = 1"

definition entry_of :: "task \<Rightarrow> Entry" where
  "entry_of t = \<lparr>Identifier = aws_ToString (t_streamName t),
     ResourceType = ''Kinesis Stream'', Error = t_err t\<rparr>"

definition outcome_log :: "'p KinesisStreams \<Rightarrow> task \<Rightarrow> log_line" where
  "outcome_log ks t =
     (case t_err t of
        None \<Rightarrow> Debugf ''[OK] Kinesis Stream %s delete in %s''
                 [Str (aws_ToString (t_streamName t)), Str (Region ks)]
      | Some e \<Rightarrow> Debugf ''[Failed] Error deleting Kinesis Stream %s in %s: %s''
                 [Str (aws_ToString (t_streamName t)), Str (Region ks), Err e])"

text \<open>
  A step of goroutine \<open>j\<close>; \<open>None\<close> when it cannot move: there is no such goroutine,
  it has returned, its call has not returned, or its send blocks (nil channel or full
  buffer).
\<close>

definition deleteAsync_step :: "'p KinesisStreams \<Rightarrow> nat \<Rightarrow> 'p state \<Rightarrow> 'p state option" where
  "deleteAsync_step ks j s =
     (if j < length (tasks s) then
        (let t = tasks s ! j in
         case t_pc t of
           T_DeleteStream \<Rightarrow>
             Some (s\<lparr>requests := requests s @ [t_streamName t],
                     tasks := (tasks s)[j := t\<lparr>t_pc := T_Await\<rparr>]\<rparr>)
         | T_Await \<Rightarrow>
             (case Client_DeleteStream ks (provider s) (t_streamName t) of
                None \<Rightarrow> None
              | Some (out, p') \<Rightarrow>
                  Some (s\<lparr>provider := p',
                          tasks := (tasks s)[j := t\<lparr>t_pc := T_Record,
                                                     t_err := map_option ApiError out\<rparr>]\<rparr>))
         | T_Record \<Rightarrow>
             Some (s\<lparr>reports := report_Record (entry_of t) (reports s),
                     tasks := (tasks s)[j := t\<lparr>t_pc := T_Send\<rparr>]\<rparr>)
         | T_Send \<Rightarrow>
             (if t_errChan t < length (errChans s) then
                (case errChans s ! t_errChan t of
                   None \<Rightarrow> None
                 | Some buf \<Rightarrow>
                     if length buf < chan_capacity then
                       Some (s\<lparr>errChans := (errChans s)[t_errChan t := Some (buf @ [t_err t])],
                               tasks := (tasks s)[j := t\<lparr>t_pc := T_Log\<rparr>]\<rparr>)
                     else None)
              else None)
         | T_Log \<Rightarrow>
             Some (s\<lparr>logs := logs s @ [outcome_log ks t],
                     tasks := (tasks s)[j := t\<lparr>t_pc := T_WgDone\<rparr>]\<rparr>)
         | T_WgDone \<Rightarrow>
             Some (s\<lparr>wg := wg s - 1, tasks := (tasks s)[j := t\<lparr>t_pc := T_Exit\<rparr>]\<rparr>)
         | T_Exit \<Rightarrow> None)
      else None)"

subsection \<open>nukeAll, one step at a time\<close>

definition spawn :: "string option list \<Rightarrow> nat \<Rightarrow> task" where
  "spawn identifiers i =
     \<lparr>t_pc = T_DeleteStream, t_streamName = identifiers ! i, t_errChan = i, t_err = None\<rparr>"

definition nukeAll_step ::
  "'p KinesisStreams \<Rightarrow> string option list \<Rightarrow> 'p state \<Rightarrow> 'p state option" where
  "nukeAll_step ks identifiers s =
     (case mainpc s of
        M_Start \<Rightarrow>
          (let s1 = (if length identifiers = 0
                     then s\<lparr>logs := logs s @
                            [Debugf ''No Kinesis Streams to nuke in region: %s'' [Str (Region ks)]]\<rparr>
                     else s)
           in if length identifiers > 100 then
                Some (s1\<lparr>logs := logs s1 @
                        [Errorf ''Nuking too many Kinesis Streams at once (100): halting to avoid hitting AWS API rate limiting'' []],
                      mainpc := M_Return (Some TooManyStreamsErr)\<rparr>)
              else
                Some (s1\<lparr>logs := logs s1 @
                        [Debugf ''Deleting Kinesis Streams in region: %s'' [Str (Region ks)]],
                      wg := wg s1 + int (length identifiers),
                      errChans := replicate (length identifiers) None,
                      mainpc := M_Spawn 0\<rparr>))
      | M_Spawn i \<Rightarrow>
          if i < length identifiers then
            Some (s\<lparr>errChans := (errChans s)[i := Some []],
                    tasks := tasks s @ [spawn identifiers i],
                    mainpc := M_Spawn (i + 1)\<rparr>)
          else Some (s\<lparr>mainpc := M_Wait\<rparr>)
      | M_Wait \<Rightarrow> if wg s = 0 then Some (s\<lparr>mainpc := M_Collect 0 None\<rparr>) else None
      | M_Collect i allErrs \<Rightarrow>
          if i < length (errChans s) then
            (case errChans s ! i of
               None \<Rightarrow> None
             | Some [] \<Rightarrow> None
             | Some (e # buf) \<Rightarrow>
                 Some (s\<lparr>errChans := (errChans s)[i := Some buf],
                         mainpc := M_Collect (i + 1)
                           (case e of None \<Rightarrow> allErrs
                            | Some er \<Rightarrow> multierror_Append allErrs er)\<rparr>))
          else
            Some (s\<lparr>mainpc := M_Return
                    (case ErrorOrNil allErrs of
                       None \<Rightarrow> None
                     | Some finalErr \<Rightarrow> Some (WithStackTrace finalErr))\<rparr>)
      | M_Return r \<Rightarrow> None)"

subsection \<open>Interleavings\<close>

text \<open>
  A schedule names, step by step, who moves: the caller of \<^verbatim>\<open>nukeAll\<close> or goroutine
  \<open>j\<close>. \<open>run\<close> follows a schedule and is \<open>None\<close> when the schedule asks a blocked or
  finished thread to move. Every execution of the program is the run of some schedule.
\<close>

datatype tid = Main | Task nat

fun step :: "'p KinesisStreams \<Rightarrow> string option list \<Rightarrow> tid \<Rightarrow> 'p state \<Rightarrow> 'p state option" where
  "step ks identifiers Main s = nukeAll_step ks identifiers s"
| "step ks identifiers (Task j) s = deleteAsync_step ks j s"

fun run :: "'p KinesisStreams \<Rightarrow> string option list \<Rightarrow> tid list \<Rightarrow> 'p state \<Rightarrow> 'p state option" where
  "run ks identifiers [] s = Some s"
| "run ks identifiers (t # sched) s =
     (case step ks identifiers t s of
        None \<Rightarrow> None
      | Some s' \<Rightarrow> run ks identifiers sched s')"

text \<open>
  \<^verbatim>\<open>nukeAll(identifiers)\<close> under a schedule, started with the provider in state
  \<open>p0\<close>: the returned error and the final state when the schedule runs the call to its
  return, \<open>None\<close> otherwise.
\<close>

definition nukeAll ::
  "'p KinesisStreams \<Rightarrow> string option list \<Rightarrow> tid list \<Rightarrow> 'p \<Rightarrow> (error option \<times> 'p state) option" where
  "nukeAll ks identifiers sched p0 =
     (case run ks identifiers sched (init p0) of
        None \<Rightarrow> None
      | Some s \<Rightarrow> (case mainpc s of M_Return r \<Rightarrow> Some (r, s) | _ \<Rightarrow> None))"

subsection \<open>Invariant of the interleavings\<close>

text \<open>
  The rank of a program point of \<^verbatim>\<open>deleteAsync\<close>: the number of steps the goroutine
  has taken.
\<close>

fun pc_rank :: "task_pc \<Rightarrow> nat" where
  "pc_rank T_DeleteStream = 0"
| "pc_rank T_Await = 1"
| "pc_rank T_Record = 2"
| "pc_rank T_Send = 3"
| "pc_rank T_Log = 4"
| "pc_rank T_WgDone = 5"
| "pc_rank T_Exit = 6"

fun api_or_nil :: "error option \<Rightarrow> bool" where
  "api_or_nil None = True"
| "api_or_nil (Some (ApiError c)) = True"
| "api_or_nil (Some e) = False"

definition rep_of :: "task \<Rightarrow> Entry multiset" where
  "rep_of t = (if 3 \<le> pc_rank (t_pc t) then {#entry_of t#} else {#})"

definition req_of :: "task \<Rightarrow> string option multiset" where
  "req_of t = (if 1 \<le> pc_rank (t_pc t) then {#t_streamName t#} else {#})"

definition exited :: "task \<Rightarrow> int" where
  "exited t = (if t_pc t = T_Exit then 1 else 0)"

fun collected :: "main_pc \<Rightarrow> nat \<Rightarrow> bool" where
  "collected (M_Collect i allErrs) j = (j < i)"
| "collected (M_Return r) j = True"
| "collected mpc j = False"

definition chan_of :: "main_pc \<Rightarrow> nat \<Rightarrow> task \<Rightarrow> error option list" where
  "chan_of mpc j t = (if 4 \<le> pc_rank (t_pc t) \<and> \<not> collected mpc j then [t_err t] else [])"

fun collect_errs :: "error option list \<Rightarrow> error list option \<Rightarrow> error list option" where
  "collect_errs [] allErrs = allErrs"
| "collect_errs (e # es) allErrs =
     collect_errs es (case e of None \<Rightarrow> allErrs | Some er \<Rightarrow> multierror_Append allErrs er)"

definition returned_error :: "error option list \<Rightarrow> error option" where
  "returned_error outcomes =
     (case ErrorOrNil (collect_errs outcomes None) of
        None \<Rightarrow> None
      | Some finalErr \<Rightarrow> Some (WithStackTrace finalErr))"

fun failures :: "error option list \<Rightarrow> error list" where
  "failures [] = []"
| "failures (None # es) = failures es"
| "failures (Some e # es) = e # failures es"

definition idle :: "'p state \<Rightarrow> bool" where
  "idle s = (tasks s = [] \<and> errChans s = [] \<and> reports s = [] \<and> requests s = [] \<and> wg s = 0)"

fun inv_main :: "string option list \<Rightarrow> task list \<Rightarrow> main_pc \<Rightarrow> bool" where
  "inv_main ids ts M_Start = False"
| "inv_main ids ts (M_Spawn i) = (i \<le> length ids \<and> length ts = i)"
| "inv_main ids ts M_Wait = (length ts = length ids)"
| "inv_main ids ts (M_Collect i allErrs) =
     (i \<le> length ids \<and> length ts = length ids \<and> (\<forall>t\<in>set ts. t_pc t = T_Exit) \<and>
      allErrs = collect_errs (take i (map t_err ts)) None)"
| "inv_main ids ts (M_Return r) =
     (length ts = length ids \<and> (\<forall>t\<in>set ts. t_pc t = T_Exit) \<and>
      r = returned_error (map t_err ts))"

definition inv_chans :: "string option list \<Rightarrow> 'p state \<Rightarrow> bool" where
  "inv_chans ids s =
     (length (errChans s) = length ids \<and>
      (\<forall>j<length ids. errChans s ! j =
         (if j < length (tasks s) then Some (chan_of (mainpc s) j (tasks s ! j)) else None)))"

definition answered :: "'p KinesisStreams \<Rightarrow> task \<Rightarrow> bool" where
  "answered ks t =
     (if 2 \<le> pc_rank (t_pc t)
      then \<exists>p out p'. Client_DeleteStream ks p (t_streamName t) = Some (out, p') \<and>
             t_err t = map_option ApiError out
      else t_err t = None)"

definition inv_frames :: "'p KinesisStreams \<Rightarrow> string option list \<Rightarrow> 'p state \<Rightarrow> bool" where
  "inv_frames ks ids s =
     (map t_streamName (tasks s) = take (length (tasks s)) ids \<and>
      map t_errChan (tasks s) = [0..<length (tasks s)] \<and>
      (\<forall>t\<in>set (tasks s). answered ks t) \<and>
      mset (reports s) = sum_list (map rep_of (tasks s)) \<and>
      mset (requests s) = sum_list (map req_of (tasks s)))"

definition inv_started :: "string option list \<Rightarrow> 'p state \<Rightarrow> bool" where
  "inv_started ids s =
     (length ids \<le> 100 \<and> inv_main ids (tasks s) (mainpc s) \<and> inv_chans ids s \<and>
      wg s + sum_list (map exited (tasks s)) = int (length ids))"

definition inv :: "'p KinesisStreams \<Rightarrow> string option list \<Rightarrow> 'p state \<Rightarrow> bool" where
  "inv ks ids s =
     (inv_frames ks ids s \<and>
      (if mainpc s = M_Start then idle s
       else if 100 < length ids then idle s \<and> mainpc s = M_Return (Some TooManyStreamsErr)
       else inv_started ids s))"

subsection \<open>A handler, identifiers and schedules for concrete runs\<close>

text \<open>
  The fake client counts the calls in the provider state; it refuses stream \<open>b\<close>,
  answers the eventual-consistency error for stream \<open>c\<close> and deletes any other.
\<close>

definition demo_ks :: "nat KinesisStreams" where
  "demo_ks = \<lparr>Region = ''eu-west-1'',
     Client_DeleteStream = (\<lambda>p n.
       Some (if n = Some ''b'' then Some ''ResourceInUseException''
             else if n = Some ''c'' then Some OperationAbortedException
             else None, Suc p))\<rparr>"

definition sched_in_order :: "tid list" where
  "sched_in_order =
     [Main, Main, Main, Main,
      Task 0, Task 0, Task 0, Task 0, Task 0, Task 0,
      Task 1, Task 1, Task 1, Task 1, Task 1, Task 1,
      Main, Main, Main, Main]"

definition sched_reversed :: "tid list" where
  "sched_reversed =
     [Main, Main, Main, Main,
      Task 1, Task 1, Task 1, Task 1, Task 1, Task 1,
      Task 0, Task 0, Task 0, Task 0, Task 0, Task 0,
      Main, Main, Main, Main]"

definition sched_b_sent :: "tid list" where
  "sched_b_sent = [Main, Main, Main, Main, Task 1, Task 1, Task 1, Task 1]"

definition sched_three :: "tid list" where
  "sched_three =
     [Main, Main, Main, Main, Main,
      Task 2, Task 0, Task 1, Task 2, Task 0, Task 1, Task 2, Task 0, Task 1,
      Task 2, Task 0, Task 1, Task 2, Task 0, Task 1, Task 2, Task 0, Task 1,
      Main, Main, Main, Main, Main]"

text \<open>
  Inclusion predicates for concrete runs of \<open>getAll\<close>: one that includes every
  stream, and a tag inclusion rule, which includes the streams tagged \<open>env = prod\<close>.
\<close>

definition include_all :: "ResourceValue \<Rightarrow> bool" where
  "include_all rv = True"

definition include_tagged :: "ResourceValue \<Rightarrow> bool" where
  "include_tagged rv = (Tags rv ''env'' = Some ''prod'')"

subsection \<open>Counting steps\<close>

text \<open>
  The number of steps \<^verbatim>\<open>nukeAll\<close> has taken at a program point, for a batch of
  \<open>n\<close> identifiers, and the number of steps all threads have taken in a state.
\<close>

fun main_done :: "nat \<Rightarrow> main_pc \<Rightarrow> nat" where
  "main_done n M_Start = 0"
| "main_done n (M_Spawn i) = 1 + i"
| "main_done n M_Wait = n + 2"
| "main_done n (M_Collect i allErrs) = n + 3 + i"
| "main_done n (M_Return r) = (if 100 < n then 1 else 2 * n + 4)"

definition steps_done :: "string option list \<Rightarrow> 'p state \<Rightarrow> nat" where
  "steps_done ids s =
     main_done (length ids) (mainpc s) + sum_list (map (\<lambda>t. pc_rank (t_pc t)) (tasks s))"

subsection \<open>Launching every goroutine\<close>

text \<open>
  The schedule that lets \<^verbatim>\<open>nukeAll\<close> launch its \<open>n\<close> goroutines and reach
  \<^verbatim>\<open>wg.Wait()\<close>, then lets every goroutine issue its delete call; and the states on
  the way: \<open>k\<close> goroutines launched, of which the first \<open>m\<close> have issued their call.
\<close>

definition launch_all :: "nat \<Rightarrow> tid list" where
  "launch_all n = Main # replicate n Main @ Main # map Task [0..<n]"

definition start_logs :: "'p KinesisStreams \<Rightarrow> string option list \<Rightarrow> log_line list" where
  "start_logs ks ids =
     (if length ids = 0
      then [Debugf ''No Kinesis Streams to nuke in region: %s'' [Str (Region ks)]] else []) @
     [Debugf ''Deleting Kinesis Streams in region: %s'' [Str (Region ks)]]"

definition in_flight :: "string option list \<Rightarrow> nat \<Rightarrow> nat \<Rightarrow> task" where
  "in_flight ids m i = (if i < m then (spawn ids i)\<lparr>t_pc := T_Await\<rparr> else spawn ids i)"

definition flight_state ::
  "'p KinesisStreams \<Rightarrow> string option list \<Rightarrow> 'p \<Rightarrow> nat \<Rightarrow> nat \<Rightarrow> main_pc \<Rightarrow> 'p state" where
  "flight_state ks ids p0 k m mpc =
     \<lparr>provider = p0, requests = take m ids, reports = [], logs = start_logs ks ids,
      wg = int (length ids),
      errChans = replicate k (Some []) @ replicate (length ids - k) None,
      tasks = map (in_flight ids m) [0..<k], mainpc = mpc\<rparr>"

section \<open>Discovery\<close>

lemma scan_page_eq:
  "scan_page P names acc =
     acc @ map aws_String (filter (\<lambda>n. P \<lparr>Name = aws_String n, Tags = Map.empty\<rparr>) names)"
  by (induction names arbitrary: acc) simp_all

lemma scan_page_agree:
  assumes "\<forall>n. P \<lparr>Name = aws_String n, Tags = Map.empty\<rparr> = Q \<lparr>Name = aws_String n, Tags = Map.empty\<rparr>"
  shows "scan_page P names acc = scan_page Q names acc"
  using assms by (simp add: scan_page_eq)

lemma getAll_loop_serves:
  assumes "serves hm np q pages r"
  shows "getAll_loop hm np P q acc =
     (case r of
        None \<Rightarrow> Some (acc @ map aws_String
                  (filter (\<lambda>n. P \<lparr>Name = aws_String n, Tags = Map.empty\<rparr>)
                     (concat (map StreamNames pages))), None)
      | Some e \<Rightarrow> Some ([], Some (WithStackTrace (ApiError e))))"
  using assms
proof (induction arbitrary: acc rule: serves.induct)
  case (serves_end hm q np)
  then show ?case by (subst getAll_loop.simps) simp
next
  case (serves_fail hm q np e q')
  then show ?case by (subst getAll_loop.simps) simp
next
  case (serves_page hm q np page q' pages r)
  show ?case
    by (subst getAll_loop.simps)
      (simp add: serves_page.hyps serves_page.IH scan_page_eq split: option.splits)
qed

lemma fake_serves: "serves fake_HasMorePages fake_NextPage q (fake_pages q) (fake_error q)"
proof (induction q rule: fake_pages.induct)
  case 1
  show ?case by (simp add: serves_end fake_HasMorePages_def)
next
  case (2 e rest)
  show ?case
    by (simp add: serves_fail[where q' = rest] fake_HasMorePages_def fake_NextPage_def)
next
  case (3 page rest)
  have "serves fake_HasMorePages fake_NextPage (Inr page # rest)
          (page # fake_pages rest) (fake_error rest)"
    by (rule serves_page[where q' = rest])
      (simp_all add: fake_HasMorePages_def fake_NextPage_def 3)
  then show ?case by simp
qed

lemma getAll_loop_agree_Some:
  assumes ret: "getAll_loop hm np P q acc = Some res"
    and agree: "\<forall>n. P \<lparr>Name = aws_String n, Tags = Map.empty\<rparr> = Q \<lparr>Name = aws_String n, Tags = Map.empty\<rparr>"
  shows "getAll_loop hm np Q q acc = Some res"
proof -
  have "\<forall>Q. (\<forall>n. P \<lparr>Name = aws_String n, Tags = Map.empty\<rparr> = Q \<lparr>Name = aws_String n, Tags = Map.empty\<rparr>)
          \<longrightarrow> getAll_loop hm np Q q acc = Some res"
  proof (rule getAll_loop.raw_induct
      [where P = "\<lambda>hm np P q acc res.
          \<forall>Q. (\<forall>n. P \<lparr>Name = aws_String n, Tags = Map.empty\<rparr> = Q \<lparr>Name = aws_String n, Tags = Map.empty\<rparr>)
            \<longrightarrow> getAll_loop hm np Q q acc = Some res",
        OF _ ret], goal_cases)
    case (1 loop hm np P q acc res)
    note IH = 1(1) and body = 1(2)
    show ?case
    proof (intro allI impI)
      fix Q
      assume ag: "\<forall>n. P \<lparr>Name = aws_String n, Tags = Map.empty\<rparr> = Q \<lparr>Name = aws_String n, Tags = Map.empty\<rparr>"
      show "getAll_loop hm np Q q acc = Some res"
      proof (cases "hm q")
        case False
        with body show ?thesis by (subst getAll_loop.simps) simp
      next
        case True
        obtain r q' where np: "np q = (r, q')" by (cases "np q")
        show ?thesis
        proof (cases r)
          case (Inl e)
          with body True np show ?thesis by (subst getAll_loop.simps) simp
        next
          case (Inr page)
          with body True np
          have "loop hm np P q' (scan_page P (StreamNames page) acc) = Some res"
            by simp
          from IH[OF this] ag
          have "getAll_loop hm np Q q' (scan_page P (StreamNames page) acc) = Some res"
            by blast
          with True np Inr scan_page_agree[OF ag] show ?thesis
            by (subst getAll_loop.simps) simp
        qed
      qed
    qed
  qed
  with agree show ?thesis by blast
qed

text \<open>
  C3. When the paginator serves all its pages, \<open>getAll\<close> returns, with a nil error,
  exactly the names for which the inclusion predicate holds, in the order of the pages
  and of the names inside each page: the filter of the names served.
\<close>

theorem getAll_is_filter:
  assumes "serves HasMorePages NextPage q pages None"
  shows "getAll HasMorePages NextPage ShouldInclude q =
     Some (map aws_String
             (filter (\<lambda>n. ShouldInclude \<lparr>Name = aws_String n, Tags = Map.empty\<rparr>)
                (concat (map StreamNames pages))), None)"
  using getAll_loop_serves[OF assms, of ShouldInclude "[]"] by (simp add: getAll_def)

theorem getAll_is_filter_witness:
  "serves fake_HasMorePages fake_NextPage
     [Inr \<lparr>StreamNames = [''a'', ''skip'']\<rparr>, Inr \<lparr>StreamNames = [''b'']\<rparr>]
     [\<lparr>StreamNames = [''a'', ''skip'']\<rparr>, \<lparr>StreamNames = [''b'']\<rparr>] None \<and>
   getAll fake_HasMorePages fake_NextPage (\<lambda>rv. Name rv \<noteq> Some ''skip'')
     [Inr \<lparr>StreamNames = [''a'', ''skip'']\<rparr>, Inr \<lparr>StreamNames = [''b'']\<rparr>] =
     Some ([Some ''a'', Some ''b''], None)"
proof -
  have h: "serves fake_HasMorePages fake_NextPage
     [Inr \<lparr>StreamNames = [''a'', ''skip'']\<rparr>, Inr \<lparr>StreamNames = [''b'']\<rparr>]
     [\<lparr>StreamNames = [''a'', ''skip'']\<rparr>, \<lparr>StreamNames = [''b'']\<rparr>] None"
    using fake_serves[of "[Inr \<lparr>StreamNames = [''a'', ''skip'']\<rparr>, Inr \<lparr>StreamNames = [''b'']\<rparr>]"]
    by simp
  show ?thesis
    using h getAll_is_filter[OF h, of "\<lambda>rv. Name rv \<noteq> Some ''skip''"]
    by (simp add: aws_String_def)
qed

text \<open>
  C4. When a page fetch fails, whatever the number of pages fetched before it,
  \<open>getAll\<close> returns no identifier at all and the error of that fetch, wrapped with a
  stack trace.
\<close>

theorem getAll_fails_fast:
  assumes "serves HasMorePages NextPage q pages (Some e)"
  shows "getAll HasMorePages NextPage ShouldInclude q =
     Some ([], Some (WithStackTrace (ApiError e)))"
  using getAll_loop_serves[OF assms, of ShouldInclude "[]"] by (simp add: getAll_def)

theorem getAll_fails_fast_witness:
  "serves fake_HasMorePages fake_NextPage
     [Inr \<lparr>StreamNames = [''a'', ''skip'']\<rparr>, Inl ''ThrottlingException'', Inr \<lparr>StreamNames = [''b'']\<rparr>]
     [\<lparr>StreamNames = [''a'', ''skip'']\<rparr>] (Some ''ThrottlingException'') \<and>
   getAll fake_HasMorePages fake_NextPage (\<lambda>rv. True)
     [Inr \<lparr>StreamNames = [''a'', ''skip'']\<rparr>, Inl ''ThrottlingException'', Inr \<lparr>StreamNames = [''b'']\<rparr>] =
     Some ([], Some (WithStackTrace (ApiError ''ThrottlingException'')))"
proof -
  have h: "serves fake_HasMorePages fake_NextPage
     [Inr \<lparr>StreamNames = [''a'', ''skip'']\<rparr>, Inl ''ThrottlingException'', Inr \<lparr>StreamNames = [''b'']\<rparr>]
     [\<lparr>StreamNames = [''a'', ''skip'']\<rparr>] (Some ''ThrottlingException'')"
    using fake_serves[of "[Inr \<lparr>StreamNames = [''a'', ''skip'']\<rparr>, Inl ''ThrottlingException'',
      Inr \<lparr>StreamNames = [''b'']\<rparr>]"]
    by simp
  show ?thesis
    using h getAll_fails_fast[OF h, of "\<lambda>rv. True"] by simp
qed

text \<open>
  C10, as amended. \<open>getAll\<close> calls the inclusion predicate only on values in which the
  name is set and the tag map is empty: the predicate never receives a tag value. So
  two predicates that agree on all such values, however they differ on tagged ones,
  give the same result (the same list, the same error, or the same absence of a
  return): the tags a stream carries cannot affect the result. A tag rule still acts,
  through its verdict on the empty tag map.
\<close>

theorem getAll_ignores_tags:
  assumes "\<forall>n. P \<lparr>Name = aws_String n, Tags = Map.empty\<rparr> = Q \<lparr>Name = aws_String n, Tags = Map.empty\<rparr>"
  shows "getAll HasMorePages NextPage P q = getAll HasMorePages NextPage Q q"
proof (cases "getAll HasMorePages NextPage P q")
  case None
  show ?thesis
  proof (cases "getAll HasMorePages NextPage Q q")
    case (Some res)
    from assms have "\<forall>n. Q \<lparr>Name = aws_String n, Tags = Map.empty\<rparr> = P \<lparr>Name = aws_String n, Tags = Map.empty\<rparr>"
      by simp
    with Some have "getAll HasMorePages NextPage P q = Some res"
      unfolding getAll_def by (rule getAll_loop_agree_Some)
    with None show ?thesis by simp
  qed (simp add: None)
next
  case (Some res)
  then have "getAll HasMorePages NextPage Q q = Some res"
    unfolding getAll_def using assms by (rule getAll_loop_agree_Some)
  with Some show ?thesis by simp
qed

theorem getAll_ignores_tags_witness:
  "(\<forall>n. (\<lambda>rv. Name rv \<noteq> Some ''skip'') \<lparr>Name = aws_String n, Tags = Map.empty\<rparr> =
        (\<lambda>rv. Name rv \<noteq> Some ''skip'' \<and> Tags rv ''env'' \<noteq> Some ''prod'')
          \<lparr>Name = aws_String n, Tags = Map.empty\<rparr>) \<and>
   getAll fake_HasMorePages fake_NextPage
     (\<lambda>rv. Name rv \<noteq> Some ''skip'' \<and> Tags rv ''env'' \<noteq> Some ''prod'')
     [Inr \<lparr>StreamNames = [''a'', ''skip'']\<rparr>, Inr \<lparr>StreamNames = [''b'']\<rparr>] =
   getAll fake_HasMorePages fake_NextPage (\<lambda>rv. Name rv \<noteq> Some ''skip'')
     [Inr \<lparr>StreamNames = [''a'', ''skip'']\<rparr>, Inr \<lparr>StreamNames = [''b'']\<rparr>] \<and>
   getAll fake_HasMorePages fake_NextPage
     (\<lambda>rv. Name rv \<noteq> Some ''skip'' \<and> Tags rv ''env'' \<noteq> Some ''prod'')
     [Inr \<lparr>StreamNames = [''a'', ''skip'']\<rparr>, Inr \<lparr>StreamNames = [''b'']\<rparr>] =
     Some ([Some ''a'', Some ''b''], None)"
proof -
  have h: "\<forall>n. (\<lambda>rv. Name rv \<noteq> Some ''skip'') \<lparr>Name = aws_String n, Tags = Map.empty\<rparr> =
        (\<lambda>rv. Name rv \<noteq> Some ''skip'' \<and> Tags rv ''env'' \<noteq> Some ''prod'')
          \<lparr>Name = aws_String n, Tags = Map.empty\<rparr>"
    by simp
  have v: "getAll fake_HasMorePages fake_NextPage (\<lambda>rv. Name rv \<noteq> Some ''skip'')
     [Inr \<lparr>StreamNames = [''a'', ''skip'']\<rparr>, Inr \<lparr>StreamNames = [''b'']\<rparr>] =
     Some ([Some ''a'', Some ''b''], None)"
    by (simp add: getAll_def getAll_loop.simps fake_HasMorePages_def fake_NextPage_def
        aws_String_def)
  show ?thesis
    using h v getAll_ignores_tags[OF h, of fake_HasMorePages fake_NextPage
      "[Inr \<lparr>StreamNames = [''a'', ''skip'']\<rparr>, Inr \<lparr>StreamNames = [''b'']\<rparr>]"]
    by simp
qed

text \<open>
  C10, as stated, fails: a tag rule can change what \<open>getAll\<close> returns. With the streams
  \<open>a\<close> and \<open>b\<close> served, the predicate that includes everything returns both, and the
  tag inclusion rule \<open>env = prod\<close>, called on empty tags only, returns none.
\<close>

theorem tag_rule_counterexample:
  "getAll fake_HasMorePages fake_NextPage include_all [Inr \<lparr>StreamNames = [''a'', ''b'']\<rparr>] =
     Some ([Some ''a'', Some ''b''], None) \<and>
   getAll fake_HasMorePages fake_NextPage include_tagged [Inr \<lparr>StreamNames = [''a'', ''b'']\<rparr>] =
     Some ([], None)"
  by (simp add: getAll_def getAll_loop.simps fake_HasMorePages_def fake_NextPage_def
      aws_String_def include_all_def include_tagged_def)

section \<open>Steps and the invariant\<close>

lemma deleteAsync_stepE:
  assumes "deleteAsync_step ks j s = Some s'"
  obtains
    (call) "j < length (tasks s)" "t_pc (tasks s ! j) = T_DeleteStream"
      "s' = s\<lparr>requests := requests s @ [t_streamName (tasks s ! j)],
              tasks := (tasks s)[j := (tasks s ! j)\<lparr>t_pc := T_Await\<rparr>]\<rparr>"
  | (await) out p' where "j < length (tasks s)" "t_pc (tasks s ! j) = T_Await"
      "Client_DeleteStream ks (provider s) (t_streamName (tasks s ! j)) = Some (out, p')"
      "s' = s\<lparr>provider := p',
              tasks := (tasks s)[j := (tasks s ! j)\<lparr>t_pc := T_Record, t_err := map_option ApiError out\<rparr>]\<rparr>"
  | (report) "j < length (tasks s)" "t_pc (tasks s ! j) = T_Record"
      "s' = s\<lparr>reports := reports s @ [entry_of (tasks s ! j)],
              tasks := (tasks s)[j := (tasks s ! j)\<lparr>t_pc := T_Send\<rparr>]\<rparr>"
  | (send) "j < length (tasks s)" "t_pc (tasks s ! j) = T_Send"
      "t_errChan (tasks s ! j) < length (errChans s)"
      "errChans s ! t_errChan (tasks s ! j) = Some []"
      "s' = s\<lparr>errChans := (errChans s)[t_errChan (tasks s ! j) := Some [t_err (tasks s ! j)]],
              tasks := (tasks s)[j := (tasks s ! j)\<lparr>t_pc := T_Log\<rparr>]\<rparr>"
  | (log) "j < length (tasks s)" "t_pc (tasks s ! j) = T_Log"
      "s' = s\<lparr>logs := logs s @ [outcome_log ks (tasks s ! j)],
              tasks := (tasks s)[j := (tasks s ! j)\<lparr>t_pc := T_WgDone\<rparr>]\<rparr>"
  | (wgdone) "j < length (tasks s)" "t_pc (tasks s ! j) = T_WgDone"
      "s' = s\<lparr>wg := wg s - 1, tasks := (tasks s)[j := (tasks s ! j)\<lparr>t_pc := T_Exit\<rparr>]\<rparr>"
proof -
  from assms have j: "j < length (tasks s)"
    by (simp add: deleteAsync_step_def split: if_splits)
  show ?thesis
  proof (cases "t_pc (tasks s ! j)")
    case T_DeleteStream
    with assms j show ?thesis by (intro call) (auto simp: Let_def deleteAsync_step_def)
  next
    case T_Await
    with assms j show ?thesis
      by (cases "Client_DeleteStream ks (provider s) (t_streamName (tasks s ! j))")
        (auto simp: deleteAsync_step_def intro: await)
  next
    case T_Record
    with assms j show ?thesis
      by (intro report) (auto simp: Let_def deleteAsync_step_def report_Record_def)
  next
    case T_Send
    with assms j have c: "t_errChan (tasks s ! j) < length (errChans s)"
      by (simp add: deleteAsync_step_def Let_def split: if_splits)
    with assms j T_Send obtain buf where b: "errChans s ! t_errChan (tasks s ! j) = Some buf"
      by (cases "errChans s ! t_errChan (tasks s ! j)") (simp_all add: deleteAsync_step_def Let_def)
    with assms j T_Send c have "buf = []"
      by (simp add: deleteAsync_step_def Let_def chan_capacity_def split: if_splits)
    with assms j T_Send c b show ?thesis
      by (intro send) (auto simp: Let_def deleteAsync_step_def chan_capacity_def)
  next
    case T_Log
    with assms j show ?thesis by (intro log) (auto simp: Let_def deleteAsync_step_def)
  next
    case T_WgDone
    with assms j show ?thesis by (intro wgdone) (auto simp: Let_def deleteAsync_step_def)
  next
    case T_Exit
    with assms j show ?thesis by (simp add: deleteAsync_step_def Let_def)
  qed
qed

lemma nukeAll_stepE:
  assumes "nukeAll_step ks ids s = Some s'"
  obtains
    (too_many) "mainpc s = M_Start" "100 < length ids"
      "s' = s\<lparr>logs := logs s' , mainpc := M_Return (Some TooManyStreamsErr)\<rparr>"
  | (start) "mainpc s = M_Start" "length ids \<le> 100"
      "s' = s\<lparr>logs := logs s', wg := wg s + int (length ids),
              errChans := replicate (length ids) None, mainpc := M_Spawn 0\<rparr>"
  | (spawn) i where "mainpc s = M_Spawn i" "i < length ids"
      "s' = s\<lparr>errChans := (errChans s)[i := Some []], tasks := tasks s @ [spawn ids i],
              mainpc := M_Spawn (i + 1)\<rparr>"
  | (spawned) i where "mainpc s = M_Spawn i" "\<not> i < length ids" "s' = s\<lparr>mainpc := M_Wait\<rparr>"
  | (wait) "mainpc s = M_Wait" "wg s = 0" "s' = s\<lparr>mainpc := M_Collect 0 None\<rparr>"
  | (collect) i allErrs e buf where "mainpc s = M_Collect i allErrs" "i < length (errChans s)"
      "errChans s ! i = Some (e # buf)"
      "s' = s\<lparr>errChans := (errChans s)[i := Some buf],
              mainpc := M_Collect (i + 1)
                (case e of None \<Rightarrow> allErrs | Some er \<Rightarrow> multierror_Append allErrs er)\<rparr>"
  | (return) i allErrs where "mainpc s = M_Collect i allErrs" "\<not> i < length (errChans s)"
      "s' = s\<lparr>mainpc := M_Return
               (case ErrorOrNil allErrs of None \<Rightarrow> None
                | Some finalErr \<Rightarrow> Some (WithStackTrace finalErr))\<rparr>"
proof (cases "mainpc s")
  case M_Start
  show ?thesis
  proof (cases "100 < length ids")
    case True
    with assms M_Start show ?thesis
      by (intro too_many) (auto simp: nukeAll_step_def Let_def)
  next
    case False
    with assms M_Start show ?thesis
      by (intro start) (auto simp: nukeAll_step_def Let_def)
  qed
next
  case (M_Spawn i)
  with assms show ?thesis
    by (cases "i < length ids") (auto simp: nukeAll_step_def intro: spawn spawned)
next
  case M_Wait
  with assms show ?thesis
    by (intro wait) (auto simp: Let_def nukeAll_step_def split: if_splits)
next
  case (M_Collect i allErrs)
  show ?thesis
  proof (cases "i < length (errChans s)")
    case True
    with assms M_Collect obtain e buf where "errChans s ! i = Some (e # buf)"
      by (auto simp: nukeAll_step_def split: option.splits list.splits)
    with assms M_Collect True show ?thesis
      by (intro collect) (auto simp: Let_def nukeAll_step_def)
  next
    case False
    with assms M_Collect show ?thesis
      by (intro return) (auto simp: Let_def nukeAll_step_def)
  qed
next
  case (M_Return r)
  with assms show ?thesis by (simp add: nukeAll_step_def)
qed

lemma map_update_same:
  "j < length xs \<Longrightarrow> f y = f (xs ! j) \<Longrightarrow> map f (xs[j := y]) = map f xs"
  by (simp add: list_eq_iff_nth_eq nth_list_update)

lemma sum_list_map_update:
  fixes f :: "'a \<Rightarrow> 'b::comm_monoid_add"
  shows "j < length xs \<Longrightarrow> f y = f (xs ! j) + d
    \<Longrightarrow> sum_list (map f (xs[j := y])) = sum_list (map f xs) + d"
proof (induction xs arbitrary: j)
  case Nil
  then show ?case by simp
next
  case (Cons x xs)
  then show ?case by (cases j) (simp_all add: ac_simps)
qed

lemma sum_list_map_update_same:
  fixes f :: "'a \<Rightarrow> 'b::comm_monoid_add"
  shows "j < length xs \<Longrightarrow> f y = f (xs ! j)
    \<Longrightarrow> sum_list (map f (xs[j := y])) = sum_list (map f xs)"
  using sum_list_map_update[of j xs f y 0] by simp

lemma exited_all:
  "sum_list (map exited ts) = int (length ts) \<Longrightarrow> \<forall>t\<in>set ts. t_pc t = T_Exit"
proof (induction ts)
  case Nil
  then show ?case by simp
next
  case (Cons t ts)
  have le: "sum_list (map exited ts) \<le> int (length ts)"
    by (induction ts) (simp_all add: exited_def)
  have "exited t \<le> 1" by (simp add: exited_def)
  with Cons.prems le have one: "exited t = 1" and rest: "sum_list (map exited ts) = int (length ts)"
    by simp_all
  from one have "t_pc t = T_Exit" by (simp add: exited_def split: if_splits)
  moreover from rest have "\<forall>t\<in>set ts. t_pc t = T_Exit" by (rule Cons.IH)
  ultimately show ?case by simp
qed

lemma exited_none:
  "\<forall>t\<in>set ts. t_pc t = T_Exit \<Longrightarrow> sum_list (map exited ts) = int (length ts)"
  by (induction ts) (simp_all add: exited_def)

lemma collect_errs_snoc:
  "collect_errs (es @ [e]) a =
     (case e of None \<Rightarrow> collect_errs es a | Some er \<Rightarrow> multierror_Append (collect_errs es a) er)"
  by (induction es arbitrary: a) (simp_all split: option.splits)

lemma api_or_nil_map: "api_or_nil (map_option ApiError out)"
  by (cases out) simp_all

lemma answered_api: "answered ks t \<Longrightarrow> api_or_nil (t_err t)"
  by (cases "2 \<le> pc_rank (t_pc t)") (auto simp: answered_def api_or_nil_map)

lemma inv_init: "inv ks ids (init p0)"
  by (simp add: inv_def inv_frames_def idle_def init_def)

lemma ball_update:
  "\<forall>t\<in>set xs. P t \<Longrightarrow> P y \<Longrightarrow> \<forall>t\<in>set (xs[j := y]). P t"
  using set_update_subset_insert[of xs j y] by auto

lemma inv_frames_update:
  assumes fr: "inv_frames ks ids s" and j: "j < length (tasks s)"
    and ts: "tasks s' = (tasks s)[j := y]"
    and nm: "t_streamName y = t_streamName (tasks s ! j)"
    and ch: "t_errChan y = t_errChan (tasks s ! j)"
    and api: "answered ks y"
    and rp: "mset (reports s') = mset (reports s) + dr" "rep_of y = rep_of (tasks s ! j) + dr"
    and rq: "mset (requests s') = mset (requests s) + dq" "req_of y = req_of (tasks s ! j) + dq"
  shows "inv_frames ks ids s'"
proof -
  have 1: "map t_streamName (tasks s') = take (length (tasks s')) ids"
    using fr j nm by (simp add: ts inv_frames_def map_update_same)
  have 2: "map t_errChan (tasks s') = [0..<length (tasks s')]"
    using fr j ch by (simp add: ts inv_frames_def map_update_same)
  have 3: "\<forall>t\<in>set (tasks s'). answered ks t"
    unfolding ts using fr api by (intro ball_update) (simp_all add: inv_frames_def)
  have 4: "mset (reports s') = sum_list (map rep_of (tasks s'))"
    unfolding ts using fr rp sum_list_map_update[OF j rp(2)] by (simp add: inv_frames_def)
  have 5: "mset (requests s') = sum_list (map req_of (tasks s'))"
    unfolding ts using fr rq sum_list_map_update[OF j rq(2)] by (simp add: inv_frames_def)
  from 1 2 3 4 5 show ?thesis by (simp add: inv_frames_def)
qed


lemma sum_list_map_update_int:
  fixes f :: "'a \<Rightarrow> int"
  shows "j < length xs \<Longrightarrow> sum_list (map f (xs[j := y])) = sum_list (map f xs) - f (xs ! j) + f y"
proof (induction xs arbitrary: j)
  case Nil
  then show ?case by simp
next
  case (Cons x xs)
  then show ?case by (cases j) simp_all
qed

lemma inv_started_length:
  assumes "inv_started ids s"
  shows "length (tasks s) \<le> length ids" and "length (errChans s) = length ids"
proof -
  from assms have "inv_main ids (tasks s) (mainpc s)" by (simp add: inv_started_def)
  then show "length (tasks s) \<le> length ids" by (cases "mainpc s") simp_all
  from assms show "length (errChans s) = length ids" by (simp add: inv_started_def inv_chans_def)
qed

lemma inv_chans_nth:
  assumes "inv_started ids s" and "j < length (tasks s)"
  shows "errChans s ! j = Some (chan_of (mainpc s) j (tasks s ! j))"
proof -
  from inv_started_length(1)[OF assms(1)] assms(2) have "j < length ids" by simp
  with assms show ?thesis by (simp add: inv_started_def inv_chans_def)
qed

lemma running_pc:
  assumes "inv_started ids s" and "j < length (tasks s)" and "t_pc (tasks s ! j) \<noteq> T_Exit"
  shows "(\<exists>i. mainpc s = M_Spawn i) \<or> mainpc s = M_Wait"
proof -
  from assms(2,3) have ne: "\<not> (\<forall>t\<in>set (tasks s). t_pc t = T_Exit)"
    using nth_mem by blast
  from assms(1) have "inv_main ids (tasks s) (mainpc s)" by (simp add: inv_started_def)
  with ne show ?thesis by (cases "mainpc s") simp_all
qed

lemma inv_started_update:
  assumes st: "inv_started ids s" and j: "j < length (tasks s)"
    and ne: "t_pc (tasks s ! j) \<noteq> T_Exit"
    and ts: "tasks s' = (tasks s)[j := y]" and mp: "mainpc s' = mainpc s"
    and wgq: "wg s' + exited y = wg s + exited (tasks s ! j)"
    and len: "length (errChans s') = length (errChans s)"
    and same: "\<forall>k. k \<noteq> j \<longrightarrow> errChans s' ! k = errChans s ! k"
    and new: "errChans s' ! j = Some (chan_of (mainpc s) j y)"
  shows "inv_started ids s'"
proof -
  from st have n: "length ids \<le> 100" by (simp add: inv_started_def)
  from st have im: "inv_main ids (tasks s) (mainpc s)" by (simp add: inv_started_def)
  have 1: "inv_main ids (tasks s') (mainpc s')"
    using running_pc[OF st j ne] im by (auto simp: ts mp)
  have 2: "inv_chans ids s'"
    unfolding inv_chans_def
  proof (intro conjI allI impI)
    show "length (errChans s') = length ids"
      using len inv_started_length(2)[OF st] by simp
  next
    fix k assume k: "k < length ids"
    show "errChans s' ! k =
       (if k < length (tasks s') then Some (chan_of (mainpc s') k (tasks s' ! k)) else None)"
    proof (cases "k = j")
      case True
      with new j show ?thesis by (simp add: ts mp)
    next
      case False
      with same have "errChans s' ! k = errChans s ! k" by simp
      also from st k have "\<dots> =
         (if k < length (tasks s) then Some (chan_of (mainpc s) k (tasks s ! k)) else None)"
        by (simp add: inv_started_def inv_chans_def)
      finally show ?thesis using False by (simp add: ts mp)
    qed
  qed
  have 3: "wg s' + sum_list (map exited (tasks s')) = int (length ids)"
    using st wgq sum_list_map_update_int[OF j, of exited y]
    by (simp add: ts inv_started_def)
  from n 1 2 3 show ?thesis by (simp add: inv_started_def)
qed

lemma inv_running:
  assumes "inv ks ids s" and "tasks s \<noteq> []"
  shows "inv_frames ks ids s" and "inv_started ids s" and "mainpc s \<noteq> M_Start"
    and "\<not> 100 < length ids"
proof -
  from assms(1) show "inv_frames ks ids s" by (simp add: inv_def)
  from assms(2) have "\<not> idle s" by (simp add: idle_def)
  with assms(1) show "inv_started ids s" and "mainpc s \<noteq> M_Start" and "\<not> 100 < length ids"
    by (auto simp: inv_def split: if_splits)
qed

lemma inv_frames_nth:
  assumes "inv_frames ks ids s" and "j < length (tasks s)"
  shows "t_errChan (tasks s ! j) = j" and "answered ks (tasks s ! j)"
    and "t_streamName (tasks s ! j) = ids ! j"
proof -
  from assms have "map t_errChan (tasks s) ! j = [0..<length (tasks s)] ! j"
    by (simp add: inv_frames_def)
  with assms(2) show "t_errChan (tasks s ! j) = j" by simp
  from assms show "answered ks (tasks s ! j)" by (simp add: inv_frames_def)
  from assms have "map t_streamName (tasks s) ! j = take (length (tasks s)) ids ! j"
    by (simp add: inv_frames_def)
  with assms(2) show "t_streamName (tasks s ! j) = ids ! j" by simp
qed

lemma inv_task_update:
  assumes i: "inv ks ids s" and j: "j < length (tasks s)"
    and ne: "t_pc (tasks s ! j) \<noteq> T_Exit"
    and ts: "tasks s' = (tasks s)[j := y]" and mp: "mainpc s' = mainpc s"
    and nm: "t_streamName y = t_streamName (tasks s ! j)"
    and ch: "t_errChan y = t_errChan (tasks s ! j)"
    and api: "answered ks y"
    and rp: "mset (reports s') = mset (reports s) + dr" "rep_of y = rep_of (tasks s ! j) + dr"
    and rq: "mset (requests s') = mset (requests s) + dq" "req_of y = req_of (tasks s ! j) + dq"
    and wgq: "wg s' + exited y = wg s + exited (tasks s ! j)"
    and len: "length (errChans s') = length (errChans s)"
    and same: "\<forall>k. k \<noteq> j \<longrightarrow> errChans s' ! k = errChans s ! k"
    and new: "errChans s' ! j = Some (chan_of (mainpc s) j y)"
  shows "inv ks ids s'"
proof -
  from j have t: "tasks s \<noteq> []" by auto
  note r = inv_running[OF i t]
  have 1: "inv_frames ks ids s'"
    using r(1) j ts nm ch api rp rq by (rule inv_frames_update)
  have 2: "inv_started ids s'"
    using r(2) j ne ts mp wgq len same new by (rule inv_started_update)
  from 1 2 r(3,4) show ?thesis by (simp add: inv_def mp)
qed

lemma inv_task_step:
  assumes i: "inv ks ids s" and st: "deleteAsync_step ks j s = Some s'"
  shows "inv ks ids s'"
proof -
  from st have j: "j < length (tasks s)"
    by (simp add: deleteAsync_step_def split: if_splits)
  then have t: "tasks s \<noteq> []" by auto
  note r = inv_running[OF i t]
  note cn = inv_chans_nth[OF r(2) j]
  note f0 = inv_frames_nth[OF r(1) j]
  from f0(2) have f2: "answered ks ((tasks s ! j)\<lparr>t_pc := pc'\<rparr>)"
    if "(2 \<le> pc_rank pc') = (2 \<le> pc_rank (t_pc (tasks s ! j)))" for pc'
    using that by (auto simp: answered_def split: if_splits)
  note f = f0(1,3)
  from st have ne: "t_pc (tasks s ! j) \<noteq> T_Exit"
    using j by (auto simp: deleteAsync_step_def Let_def)
  from running_pc[OF r(2) j ne] have nc: "\<not> collected (mainpc s) j" by auto
  from inv_started_length[OF r(2)] j have jc: "j < length (errChans s)" by simp
  from st show ?thesis
  proof (cases rule: deleteAsync_stepE)
    case call
    show ?thesis
      by (rule inv_task_update[OF i j ne, where y = "(tasks s ! j)\<lparr>t_pc := T_Await\<rparr>"
            and dr = "{#}" and dq = "{#t_streamName (tasks s ! j)#}"])
        (simp_all add: call f f2 cn rep_of_def req_of_def exited_def chan_of_def)
  next
    case (await out p')
    have a: "answered ks ((tasks s ! j)\<lparr>t_pc := T_Record, t_err := map_option ApiError out\<rparr>)"
      using await(3) by (auto simp: answered_def)
    show ?thesis
      by (rule inv_task_update[OF i j ne, where y = "(tasks s ! j)\<lparr>t_pc := T_Record, t_err := map_option ApiError out\<rparr>"
            and dr = "{#}" and dq = "{#}"])
        (simp_all add: await a f cn rep_of_def req_of_def exited_def chan_of_def)
  next
    case report
    show ?thesis
      by (rule inv_task_update[OF i j ne, where y = "(tasks s ! j)\<lparr>t_pc := T_Send\<rparr>"
            and dr = "{#entry_of (tasks s ! j)#}" and dq = "{#}"])
        (simp_all add: report f f2 cn rep_of_def req_of_def exited_def chan_of_def entry_of_def)
  next
    case send
    show ?thesis
      by (rule inv_task_update[OF i j ne, where y = "(tasks s ! j)\<lparr>t_pc := T_Log\<rparr>"
            and dr = "{#}" and dq = "{#}"])
        (simp_all add: send f f2 cn nc jc rep_of_def req_of_def exited_def chan_of_def entry_of_def)
  next
    case log
    show ?thesis
      by (rule inv_task_update[OF i j ne, where y = "(tasks s ! j)\<lparr>t_pc := T_WgDone\<rparr>"
            and dr = "{#}" and dq = "{#}"])
        (simp_all add: log f f2 cn rep_of_def req_of_def exited_def chan_of_def entry_of_def)
  next
    case wgdone
    show ?thesis
      by (rule inv_task_update[OF i j ne, where y = "(tasks s ! j)\<lparr>t_pc := T_Exit\<rparr>"
            and dr = "{#}" and dq = "{#}"])
        (simp_all add: wgdone f f2 cn rep_of_def req_of_def exited_def chan_of_def entry_of_def)
  qed
qed

lemma inv_started_of:
  assumes "inv ks ids s" and "mainpc s \<noteq> M_Start" and "mainpc s \<noteq> M_Return (Some TooManyStreamsErr)"
  shows "inv_frames ks ids s" and "inv_started ids s" and "length ids \<le> 100"
  using assms by (auto simp: inv_def inv_started_def split: if_splits)

lemma chan_of_not_collected:
  "\<not> collected mpc j \<Longrightarrow> \<not> collected mpc' j \<Longrightarrow> chan_of mpc' j t = chan_of mpc j t"
  by (simp add: chan_of_def)

lemma inv_main_step:
  assumes i: "inv ks ids s" and st: "nukeAll_step ks ids s = Some s'"
  shows "inv ks ids s'"
  using st
proof (cases rule: nukeAll_stepE)
  case too_many
  from i too_many(1) have "inv_frames ks ids s" "idle s" by (simp_all add: inv_def)
  then have "inv_frames ks ids s'" "idle s'"
    by (subst too_many(3), simp add: inv_frames_def idle_def)+
  moreover have "mainpc s' = M_Return (Some TooManyStreamsErr)"
    by (subst too_many(3)) simp
  ultimately show ?thesis using too_many(2) by (simp add: inv_def)
next
  case start
  from i start(1) have fr: "inv_frames ks ids s" and id: "idle s" by (simp_all add: inv_def)
  have e: "tasks s' = tasks s" "reports s' = reports s" "requests s' = requests s"
    "wg s' = wg s + int (length ids)" "errChans s' = replicate (length ids) None"
    "mainpc s' = M_Spawn 0"
    by (subst start(3), simp)+
  from fr have "inv_frames ks ids s'" by (simp add: inv_frames_def e)
  moreover from id start(2) have "inv_started ids s'"
    by (simp add: inv_started_def inv_chans_def idle_def e)
  ultimately show ?thesis using start(2) by (simp add: inv_def e)
next
  case (spawn i')
  from spawn(1) have pc: "mainpc s \<noteq> M_Start" "mainpc s \<noteq> M_Return (Some TooManyStreamsErr)"
    by simp_all
  note r = inv_started_of[OF i pc]
  from r(2) spawn(1) have len: "length (tasks s) = i'" by (simp add: inv_started_def)
  have e: "tasks s' = tasks s @ [spawn ids i']" "reports s' = reports s"
    "requests s' = requests s" "wg s' = wg s" "errChans s' = (errChans s)[i' := Some []]"
    "mainpc s' = M_Spawn (Suc i')"
    by (subst spawn(3), simp)+
  have an: "answered ks (spawn ids i')" by (simp add: answered_def spawn_def)
  have rq: "rep_of (spawn ids i') = {#}" "req_of (spawn ids i') = {#}"
    "t_streamName (spawn ids i') = ids ! i'" "t_errChan (spawn ids i') = i'"
    by (simp_all add: rep_of_def req_of_def spawn_def)
  have 1: "inv_frames ks ids s'"
    using r(1) spawn(2) len
    by (simp add: inv_frames_def e take_Suc_conv_app_nth an rq)
  have 2: "inv_chans ids s'"
    unfolding inv_chans_def
  proof (intro conjI allI impI)
    show "length (errChans s') = length ids"
      using inv_started_length(2)[OF r(2)] by (simp add: e)
  next
    fix k assume k: "k < length ids"
    from r(2) k have old: "errChans s ! k =
        (if k < length (tasks s) then Some (chan_of (mainpc s) k (tasks s ! k)) else None)"
      by (simp add: inv_started_def inv_chans_def)
    show "errChans s' ! k =
       (if k < length (tasks s') then Some (chan_of (mainpc s') k (tasks s' ! k)) else None)"
    proof (cases "k = i'")
      case True
      with k inv_started_length(2)[OF r(2)] show ?thesis
        by (simp add: e len chan_of_def spawn_def nth_append)
    next
      case False
      with old len spawn(1) show ?thesis
        by (simp add: e nth_append chan_of_def)
    qed
  qed
  from r(2) spawn(1,2) len 2 have "inv_started ids s'"
    by (simp add: inv_started_def e exited_def spawn_def)
  with 1 r(3) show ?thesis by (simp add: inv_def e)
next
  case (spawned i')
  from spawned(1) have pc: "mainpc s \<noteq> M_Start" "mainpc s \<noteq> M_Return (Some TooManyStreamsErr)"
    by simp_all
  note r = inv_started_of[OF i pc]
  have e: "tasks s' = tasks s" "reports s' = reports s"
    "requests s' = requests s" "wg s' = wg s" "errChans s' = errChans s"
    "mainpc s' = M_Wait"
    by (subst spawned(3), simp)+
  from r(1) have 1: "inv_frames ks ids s'" by (simp add: inv_frames_def e)
  from r(2) spawned(1,2) have "inv_started ids s'"
    by (simp add: inv_started_def inv_chans_def e chan_of_def)
  with 1 r(3) show ?thesis by (simp add: inv_def e)
next
  case wait
  from wait(1) have pc: "mainpc s \<noteq> M_Start" "mainpc s \<noteq> M_Return (Some TooManyStreamsErr)"
    by simp_all
  note r = inv_started_of[OF i pc]
  have e: "tasks s' = tasks s" "reports s' = reports s"
    "requests s' = requests s" "wg s' = wg s" "errChans s' = errChans s"
    "mainpc s' = M_Collect 0 None"
    by (subst wait(3), simp)+
  from r(1) have 1: "inv_frames ks ids s'" by (simp add: inv_frames_def e)
  from r(2) wait(1,2) have "sum_list (map exited (tasks s)) = int (length (tasks s))"
    by (simp add: inv_started_def)
  then have ex: "\<forall>t\<in>set (tasks s). t_pc t = T_Exit" by (rule exited_all)
  from r(2) wait(1,2) ex have "inv_started ids s'"
    by (simp add: inv_started_def inv_chans_def e chan_of_def)
  with 1 r(3) show ?thesis by (simp add: inv_def e)
next
  case (collect i' allErrs e0 buf)
  from collect(1) have pc: "mainpc s \<noteq> M_Start" "mainpc s \<noteq> M_Return (Some TooManyStreamsErr)"
    by simp_all
  note r = inv_started_of[OF i pc]
  have e: "tasks s' = tasks s" "reports s' = reports s"
    "requests s' = requests s" "wg s' = wg s" "errChans s' = (errChans s)[i' := Some buf]"
    "mainpc s' = M_Collect (Suc i')
       (case e0 of None \<Rightarrow> allErrs | Some er \<Rightarrow> multierror_Append allErrs er)"
    by (subst collect(4), simp)+
  from r(1) have 1: "inv_frames ks ids s'" by (simp add: inv_frames_def e)
  from r(2) collect(1) have im: "i' \<le> length ids" "length (tasks s) = length ids"
    "\<forall>t\<in>set (tasks s). t_pc t = T_Exit"
    "allErrs = collect_errs (take i' (map t_err (tasks s))) None"
    by (simp_all add: inv_started_def)
  from collect(2) inv_started_length(2)[OF r(2)] have i'n: "i' < length ids" by simp
  with im(2) have i't: "i' < length (tasks s)" by simp
  with im(3) have ex: "t_pc (tasks s ! i') = T_Exit" by simp
  from inv_chans_nth[OF r(2) i't] collect(1,3) ex
  have got: "e0 = t_err (tasks s ! i')" "buf = []"
    by (simp_all add: chan_of_def)
  have 2: "inv_chans ids s'"
    unfolding inv_chans_def
  proof (intro conjI allI impI)
    show "length (errChans s') = length ids"
      using inv_started_length(2)[OF r(2)] by (simp add: e)
  next
    fix k assume k: "k < length ids"
    from r(2) k have old: "errChans s ! k =
        (if k < length (tasks s) then Some (chan_of (mainpc s) k (tasks s ! k)) else None)"
      by (simp add: inv_started_def inv_chans_def)
    show "errChans s' ! k =
       (if k < length (tasks s') then Some (chan_of (mainpc s') k (tasks s' ! k)) else None)"
    proof (cases "k = i'")
      case True
      with k i't collect(2) got show ?thesis
        by (simp add: e chan_of_def)
    next
      case False
      with old collect(1) show ?thesis
        by (auto simp: e chan_of_def)
    qed
  qed
  have 3: "(case e0 of None \<Rightarrow> allErrs | Some er \<Rightarrow> multierror_Append allErrs er) =
      collect_errs (take (Suc i') (map t_err (tasks s))) None"
    using i't got(1) unfolding im(4) by (simp add: take_Suc_conv_app_nth collect_errs_snoc)
  from r(2) collect(1) i'n im 2 3 have "inv_started ids s'"
    by (simp add: inv_started_def e)
  with 1 r(3) show ?thesis by (simp add: inv_def e)
next
  case (return i' allErrs)
  from return(1) have pc: "mainpc s \<noteq> M_Start" "mainpc s \<noteq> M_Return (Some TooManyStreamsErr)"
    by simp_all
  note r = inv_started_of[OF i pc]
  have e: "tasks s' = tasks s" "reports s' = reports s"
    "requests s' = requests s" "wg s' = wg s" "errChans s' = errChans s"
    "mainpc s' = M_Return (case ErrorOrNil allErrs of None \<Rightarrow> None
                | Some finalErr \<Rightarrow> Some (WithStackTrace finalErr))"
    by (subst return(3), simp)+
  from r(1) have 1: "inv_frames ks ids s'" by (simp add: inv_frames_def e)
  from r(2) return(1) have im: "i' \<le> length ids" "length (tasks s) = length ids"
    "\<forall>t\<in>set (tasks s). t_pc t = T_Exit"
    "allErrs = collect_errs (take i' (map t_err (tasks s))) None"
    by (simp_all add: inv_started_def)
  from return(2) inv_started_length(2)[OF r(2)] im(1) have "i' = length ids" by simp
  with im have al: "allErrs = collect_errs (map t_err (tasks s)) None" by simp
  have 2: "inv_chans ids s'"
    using r(2) return(1) \<open>i' = length ids\<close>
    by (simp add: inv_started_def inv_chans_def e chan_of_def)
  from r(2) im 2 al have "inv_started ids s'"
    by (simp add: inv_started_def e returned_error_def)
  moreover have "mainpc s' \<noteq> M_Return (Some TooManyStreamsErr)"
    by (simp add: e ErrorOrNil_def split: option.splits)
  ultimately show ?thesis using 1 r(3) by (simp add: inv_def e)
qed

lemma inv_step: "inv ks ids s \<Longrightarrow> step ks ids t s = Some s' \<Longrightarrow> inv ks ids s'"
  by (cases t) (auto intro: inv_main_step inv_task_step)

lemma inv_run: "inv ks ids s \<Longrightarrow> run ks ids sched s = Some s' \<Longrightarrow> inv ks ids s'"
proof (induction sched arbitrary: s)
  case Nil
  then show ?case by simp
next
  case (Cons t sched)
  then show ?case by (auto split: option.splits dest: inv_step)
qed

section \<open>The state at the return\<close>

lemma multierror_Append_api:
  "api_or_nil (Some e) \<Longrightarrow>
     multierror_Append a e = Some ((case a of None \<Rightarrow> [] | Some xs \<Rightarrow> xs) @ [e])"
  by (cases e) simp_all

lemma collect_errs_failures:
  "\<forall>e\<in>set outs. api_or_nil e \<Longrightarrow>
     collect_errs outs a =
       (if failures outs = [] then a
        else Some ((case a of None \<Rightarrow> [] | Some xs \<Rightarrow> xs) @ failures outs))"
proof (induction outs arbitrary: a)
  case Nil
  then show ?case by simp
next
  case (Cons e outs)
  show ?case
  proof (cases e)
    case None
    with Cons show ?thesis by simp
  next
    case (Some er)
    with Cons.prems have "api_or_nil (Some er)" by simp
    with Cons Some show ?thesis by (simp add: multierror_Append_api)
  qed
qed

lemma returned_error_failures:
  assumes "\<forall>e\<in>set outs. api_or_nil e"
  shows "returned_error outs =
     (if failures outs = [] then None else Some (WithStackTrace (MultiError (failures outs))))"
  by (simp add: returned_error_def collect_errs_failures[OF assms] ErrorOrNil_def)

lemma length_failures: "length (failures outs) = length (filter (\<lambda>e. e \<noteq> None) outs)"
  by (induction outs rule: failures.induct) simp_all

lemma rep_of_exited:
  "\<forall>t\<in>set ts. t_pc t = T_Exit \<Longrightarrow> sum_list (map rep_of ts) = mset (map entry_of ts)"
  by (induction ts) (simp_all add: rep_of_def)

lemma req_of_exited:
  "\<forall>t\<in>set ts. t_pc t = T_Exit \<Longrightarrow> sum_list (map req_of ts) = mset (map t_streamName ts)"
  by (induction ts) (simp_all add: req_of_def)

lemma nukeAll_SomeD:
  assumes "nukeAll ks ids sched p0 = Some (r, s)"
  shows "run ks ids sched (init p0) = Some s" and "mainpc s = M_Return r" and "inv ks ids s"
proof -
  from assms show 1: "run ks ids sched (init p0) = Some s" and "mainpc s = M_Return r"
    by (auto simp: nukeAll_def split: option.splits main_pc.splits)
  from inv_init 1 show "inv ks ids s" by (rule inv_run)
qed

lemma returned_state:
  assumes "inv ks ids s" and "mainpc s = M_Return r" and "length ids \<le> 100"
  shows "length (tasks s) = length ids" and "\<forall>t\<in>set (tasks s). t_pc t = T_Exit"
    and "r = returned_error (map t_err (tasks s))"
    and "map t_streamName (tasks s) = ids"
    and "mset (reports s) = mset (map entry_of (tasks s))"
    and "mset (requests s) = mset ids"
    and "\<forall>e\<in>set (map t_err (tasks s)). api_or_nil e"
proof -
  from assms have st: "inv_started ids s" and fr: "inv_frames ks ids s"
    by (auto simp: inv_def split: if_splits)
  from st assms(2) show len: "length (tasks s) = length ids"
    and ex: "\<forall>t\<in>set (tasks s). t_pc t = T_Exit"
    and "r = returned_error (map t_err (tasks s))"
    by (simp_all add: inv_started_def)
  from fr len show nm: "map t_streamName (tasks s) = ids" by (simp add: inv_frames_def)
  from fr ex show "mset (reports s) = mset (map entry_of (tasks s))"
    by (simp add: inv_frames_def rep_of_exited)
  from fr ex nm show "mset (requests s) = mset ids"
    by (simp add: inv_frames_def req_of_exited)
  from fr show "\<forall>e\<in>set (map t_err (tasks s)). api_or_nil e"
    by (auto simp: inv_frames_def dest: answered_api)
qed

lemma guarded_state:
  assumes "inv ks ids s" and "mainpc s = M_Return r" and "100 < length ids"
  shows "r = Some TooManyStreamsErr" and "tasks s = []" and "reports s = []" and "requests s = []"
  using assms by (auto simp: inv_def idle_def)

lemma returned_not_guard:
  assumes "inv ks ids s" and "mainpc s = M_Return r" and "length ids \<le> 100"
  shows "r \<noteq> Some TooManyStreamsErr"
  using returned_state(3,7)[OF assms] by (simp add: returned_error_failures)

lemma count_list_failures: "count_list (failures outs) e = count_list outs (Some e)"
  by (induction outs rule: failures.induct) simp_all

lemma filter_failed: "length (filter (\<lambda>e. e \<noteq> None) (map t_err ts)) = length (filter (\<lambda>t. t_err t \<noteq> None) ts)"
  by (induction ts) simp_all

lemma length_filter_mset: "length (filter P xs) = size (filter_mset P (mset xs))"
  by (simp flip: mset_filter)

lemma failed_entries:
  assumes "mset rs = mset (map entry_of ts)"
  shows "length (filter (\<lambda>e. Error e \<noteq> None) rs) = length (filter (\<lambda>t. t_err t \<noteq> None) ts)"
proof -
  have "length (filter (\<lambda>e. Error e \<noteq> None) rs) =
      length (filter (\<lambda>e. Error e \<noteq> None) (map entry_of ts))"
    by (simp only: length_filter_mset assms)
  also have "\<dots> = length (filter (\<lambda>t. t_err t \<noteq> None) ts)"
    by (induction ts) (simp_all add: entry_of_def)
  finally show ?thesis .
qed

text \<open>
  C1. For a batch of at most 100 identifiers and any interleaving that runs
  \<open>nukeAll\<close> to its return: there is one frame of \<open>deleteAsync\<close> per identifier,
  in the order of the identifiers; the outcome kept in frame \<open>j\<close> is an answer of the
  client to a delete call for identifier \<open>j\<close>; the report sink holds exactly one entry
  per frame, with the identifier, the tag \<open>Kinesis Stream\<close> and that outcome, the error
  or none; a delete call was issued for every identifier; the returned error is nil when
  no call failed (the empty batch included), and otherwise wraps a multi-error whose
  causes are the errors of the failed calls, as many as calls that failed and as many as
  entries of the sink that carry an error.
\<close>

theorem nukeAll_reports_every_identifier:
  assumes "nukeAll ks identifiers sched p0 = Some (r, s)" and "length identifiers \<le> 100"
  shows "map t_streamName (tasks s) = identifiers \<and>
     mset (reports s) =
       mset (map (\<lambda>t. \<lparr>Identifier = aws_ToString (t_streamName t),
                        ResourceType = ''Kinesis Stream'', Error = t_err t\<rparr>) (tasks s)) \<and>
     length (reports s) = length identifiers \<and>
     mset (requests s) = mset identifiers \<and>
     r = (if failures (map t_err (tasks s)) = [] then None
          else Some (WithStackTrace (MultiError (failures (map t_err (tasks s)))))) \<and>
     length (failures (map t_err (tasks s))) = length (filter (\<lambda>t. t_err t \<noteq> None) (tasks s)) \<and>
     length (failures (map t_err (tasks s))) =
       length (filter (\<lambda>e. Error e \<noteq> None) (reports s)) \<and>
     (\<forall>j<length identifiers. \<exists>p out p'.
        Client_DeleteStream ks p (identifiers ! j) = Some (out, p') \<and>
        t_err (tasks s ! j) = map_option ApiError out)"
proof -
  note d = nukeAll_SomeD[OF assms(1)]
  note f = returned_state[OF d(3) d(2) assms(2)]
  have e: "entry_of = (\<lambda>t. \<lparr>Identifier = aws_ToString (t_streamName t),
                        ResourceType = ''Kinesis Stream'', Error = t_err t\<rparr>)"
    by (rule ext) (simp add: entry_of_def)
  from f(5) have "size (mset (reports s)) = size (mset (map entry_of (tasks s)))" by simp
  with f(1) have 3: "length (reports s) = length identifiers" by simp
  from f(3,7) have 5: "r = (if failures (map t_err (tasks s)) = [] then None
          else Some (WithStackTrace (MultiError (failures (map t_err (tasks s))))))"
    by (simp only: returned_error_failures)
  have 6: "length (failures (map t_err (tasks s))) =
      length (filter (\<lambda>t. t_err t \<noteq> None) (tasks s))"
    by (simp only: length_failures filter_failed)
  from 6 failed_entries[OF f(5)]
  have 7: "length (failures (map t_err (tasks s))) =
      length (filter (\<lambda>e. Error e \<noteq> None) (reports s))"
    by simp
  have 8: "\<forall>j<length identifiers. \<exists>p out p'.
        Client_DeleteStream ks p (identifiers ! j) = Some (out, p') \<and>
        t_err (tasks s ! j) = map_option ApiError out"
  proof (intro allI impI)
    fix j assume "j < length identifiers"
    with f(1) have j: "j < length (tasks s)" by simp
    from d(3) have fr: "inv_frames ks identifiers s" by (simp add: inv_def)
    note n = inv_frames_nth[OF fr j]
    from f(2) j have "t_pc (tasks s ! j) = T_Exit" by simp
    with n(2) have "\<exists>p out p'.
        Client_DeleteStream ks p (t_streamName (tasks s ! j)) = Some (out, p') \<and>
        t_err (tasks s ! j) = map_option ApiError out"
      by (simp add: answered_def)
    then show "\<exists>p out p'.
        Client_DeleteStream ks p (identifiers ! j) = Some (out, p') \<and>
        t_err (tasks s ! j) = map_option ApiError out"
      by (simp only: n(3))
  qed
  from f(5) have 2: "mset (reports s) =
       mset (map (\<lambda>t. \<lparr>Identifier = aws_ToString (t_streamName t),
                        ResourceType = ''Kinesis Stream'', Error = t_err t\<rparr>) (tasks s))"
    by (simp only: e)
  from f(4) 2 3 f(6) 5 6 7 8 show ?thesis by (intro conjI)
qed

theorem nukeAll_reports_every_identifier_witness:
  "\<exists>s. nukeAll demo_ks [Some ''a'', Some ''c'', Some ''b''] sched_three 0 =
         Some (Some (WithStackTrace (MultiError
            [ApiError OperationAbortedException, ApiError ''ResourceInUseException''])), s) \<and>
       length [Some ''a'', Some ''c'', Some ''b''] \<le> 100 \<and>
       reports s =
         [\<lparr>Identifier = ''b'', ResourceType = ''Kinesis Stream'',
            Error = Some (ApiError ''ResourceInUseException'')\<rparr>,
          \<lparr>Identifier = ''a'', ResourceType = ''Kinesis Stream'', Error = None\<rparr>,
          \<lparr>Identifier = ''c'', ResourceType = ''Kinesis Stream'',
            Error = Some (ApiError OperationAbortedException)\<rparr>] \<and>
       map t_err (tasks s) =
         [None, Some (ApiError OperationAbortedException),
          Some (ApiError ''ResourceInUseException'')] \<and>
       mset (requests s) = mset [Some ''a'', Some ''c'', Some ''b''] \<and>
       length (failures (map t_err (tasks s))) =
         length (filter (\<lambda>e. Error e \<noteq> None) (reports s)) \<and>
       (\<exists>p out p'.
          Client_DeleteStream demo_ks p ([Some ''a'', Some ''c'', Some ''b''] ! Suc 0) =
            Some (out, p') \<and>
          t_err (tasks s ! Suc 0) = map_option ApiError out)"
proof -
  have "map_option (\<lambda>x. (fst x, reports (snd x), map t_err (tasks (snd x))))
          (nukeAll demo_ks [Some ''a'', Some ''c'', Some ''b''] sched_three 0) =
      Some (Some (WithStackTrace (MultiError
              [ApiError OperationAbortedException, ApiError ''ResourceInUseException''])),
            [\<lparr>Identifier = ''b'', ResourceType = ''Kinesis Stream'',
               Error = Some (ApiError ''ResourceInUseException'')\<rparr>,
             \<lparr>Identifier = ''a'', ResourceType = ''Kinesis Stream'', Error = None\<rparr>,
             \<lparr>Identifier = ''c'', ResourceType = ''Kinesis Stream'',
               Error = Some (ApiError OperationAbortedException)\<rparr>],
            [None, Some (ApiError OperationAbortedException),
             Some (ApiError ''ResourceInUseException'')])"
    by code_simp
  then obtain s where
    h: "nukeAll demo_ks [Some ''a'', Some ''c'', Some ''b''] sched_three 0 =
         Some (Some (WithStackTrace (MultiError
            [ApiError OperationAbortedException, ApiError ''ResourceInUseException''])), s)"
    and rp: "reports s =
         [\<lparr>Identifier = ''b'', ResourceType = ''Kinesis Stream'',
            Error = Some (ApiError ''ResourceInUseException'')\<rparr>,
          \<lparr>Identifier = ''a'', ResourceType = ''Kinesis Stream'', Error = None\<rparr>,
          \<lparr>Identifier = ''c'', ResourceType = ''Kinesis Stream'',
            Error = Some (ApiError OperationAbortedException)\<rparr>]"
    and te: "map t_err (tasks s) =
         [None, Some (ApiError OperationAbortedException),
          Some (ApiError ''ResourceInUseException'')]"
    by (cases "nukeAll demo_ks [Some ''a'', Some ''c'', Some ''b''] sched_three 0") auto
  have l: "length [Some ''a'', Some ''c'', Some ''b''] \<le> 100" by simp
  note t = nukeAll_reports_every_identifier[OF h l]
  from t have rq: "mset (requests s) = mset [Some ''a'', Some ''c'', Some ''b'']" by blast
  from t have k: "length (failures (map t_err (tasks s))) =
         length (filter (\<lambda>e. Error e \<noteq> None) (reports s))"
    by blast
  from t have al: "\<forall>j<length [Some ''a'', Some ''c'', Some ''b'']. \<exists>p out p'.
        Client_DeleteStream demo_ks p ([Some ''a'', Some ''c'', Some ''b''] ! j) = Some (out, p') \<and>
        t_err (tasks s ! j) = map_option ApiError out"
    by blast
  have j: "Suc 0 < length [Some ''a'', Some ''c'', Some ''b'']" by simp
  from al[rule_format, OF j] have lk: "\<exists>p out p'.
        Client_DeleteStream demo_ks p ([Some ''a'', Some ''c'', Some ''b''] ! Suc 0) = Some (out, p') \<and>
        t_err (tasks s ! Suc 0) = map_option ApiError out" .
  from h l rp te rq k lk show ?thesis by (intro exI[of _ s] conjI)
qed

lemma guard_run_is_one_step:
  assumes "run ks ids sched (init p0) = Some s" and "mainpc s = M_Return r"
    and "100 < length ids"
  shows "sched = [Main]"
proof (cases sched)
  case Nil
  with assms(1,2) show ?thesis by (auto simp: init_def)
next
  case (Cons t rest)
  show ?thesis
  proof (cases t)
    case (Task j)
    with Cons assms(1) show ?thesis by (simp add: deleteAsync_step_def init_def)
  next
    case Main
    with Cons assms(1) obtain s1 where s1: "nukeAll_step ks ids (init p0) = Some s1"
      and rest: "run ks ids rest s1 = Some s"
      by (auto split: option.splits)
    from s1 assms(3) have m: "mainpc s1 = M_Return (Some TooManyStreamsErr)" and t: "tasks s1 = []"
      by (auto simp: nukeAll_step_def init_def Let_def split: if_splits)
    have "rest = []"
    proof (cases rest)
      case (Cons t' rest')
      with rest m t show ?thesis
        by (cases t') (simp_all add: nukeAll_step_def deleteAsync_step_def)
    qed simp
    with Main Cons show ?thesis by simp
  qed
qed

text \<open>
  C2. In every interleaving that runs \<open>nukeAll\<close> to its return, the returned
  error is \<open>TooManyStreamsErr\<close> if and only if more than 100 identifiers were passed
  (so not with exactly 100); in that case the call returns in its first step, no
  goroutine was launched, no delete call was issued and the report sink is empty.
\<close>

theorem nukeAll_too_many:
  assumes "nukeAll ks identifiers sched p0 = Some (r, s)"
  shows "(r = Some TooManyStreamsErr) = (100 < length identifiers) \<and>
     (100 < length identifiers \<longrightarrow>
        sched = [Main] \<and> requests s = [] \<and> reports s = [] \<and> tasks s = [])"
proof (cases "100 < length identifiers")
  case True
  note d = nukeAll_SomeD[OF assms]
  from guarded_state[OF d(3) d(2) True] guard_run_is_one_step[OF d(1) d(2) True] True
  show ?thesis by simp
next
  case False
  note d = nukeAll_SomeD[OF assms]
  from False have "length identifiers \<le> 100" by simp
  from returned_not_guard[OF d(3) d(2) this] False show ?thesis by simp
qed

theorem nukeAll_too_many_witness:
  "\<exists>s. nukeAll demo_ks (replicate 101 (Some ''a'')) [Main] 0 = Some (Some TooManyStreamsErr, s) \<and>
       100 < length (replicate 101 (Some ''a'')) \<and>
       requests s = [] \<and> reports s = [] \<and> tasks s = []"
proof -
  have "map_option fst (nukeAll demo_ks (replicate 101 (Some ''a'')) [Main] 0) =
      Some (Some TooManyStreamsErr)"
    by (simp add: nukeAll_def nukeAll_step_def init_def Let_def)
  then obtain s where h: "nukeAll demo_ks (replicate 101 (Some ''a'')) [Main] 0 =
      Some (Some TooManyStreamsErr, s)"
    by (cases "nukeAll demo_ks (replicate 101 (Some ''a'')) [Main] 0") auto
  from nukeAll_too_many[OF h] h show ?thesis
    by (intro exI[of _ s]) simp
qed

lemma set_failures: "(e \<in> set (failures outs)) = (Some e \<in> set outs)"
  by (induction outs rule: failures.induct) auto

text \<open>
  C5. When the client answers the eventual-consistency error
  \<open>OperationAbortedException\<close> to the delete call for identifier \<open>j\<close>, that
  error is the outcome of frame \<open>j\<close> and is one of the causes of the returned
  multi-error. No error is filtered: every error occurs among the causes as often as it
  occurs among the outcomes of the calls.
\<close>

theorem operation_aborted_is_aggregated:
  assumes "nukeAll ks identifiers sched p0 = Some (r, s)" and "length identifiers \<le> 100"
    and "j < length identifiers"
    and "\<forall>p. \<exists>p'. Client_DeleteStream ks p (identifiers ! j) =
           Some (Some OperationAbortedException, p')"
  shows "t_err (tasks s ! j) = Some (ApiError OperationAbortedException) \<and>
     r = Some (WithStackTrace (MultiError (failures (map t_err (tasks s))))) \<and>
     ApiError OperationAbortedException \<in> set (failures (map t_err (tasks s))) \<and>
     (\<forall>e. count_list (failures (map t_err (tasks s))) e =
           count_list (map t_err (tasks s)) (Some e))"
proof -
  note d = nukeAll_SomeD[OF assms(1)]
  note f = returned_state[OF d(3) d(2) assms(2)]
  from f(1) assms(3) have j: "j < length (tasks s)" by simp
  then have mem: "tasks s ! j \<in> set (tasks s)" by simp
  from d(3) have "inv_frames ks identifiers s" by (simp add: inv_def)
  with mem have "answered ks (tasks s ! j)" by (simp add: inv_frames_def)
  moreover from f(2) mem have "t_pc (tasks s ! j) = T_Exit" by blast
  moreover from f(4) j have "t_streamName (tasks s ! j) = identifiers ! j"
    by (metis nth_map)
  ultimately obtain p out p' where
    "Client_DeleteStream ks p (identifiers ! j) = Some (out, p')"
    "t_err (tasks s ! j) = map_option ApiError out"
    by (auto simp: answered_def)
  with assms(4) have 1: "t_err (tasks s ! j) = Some (ApiError OperationAbortedException)"
    by (metis map_option_eq_Some option.inject prod.inject)
  with j have "Some (ApiError OperationAbortedException) \<in> set (map t_err (tasks s))"
    by (metis length_map nth_map nth_mem)
  then have 2: "ApiError OperationAbortedException \<in> set (failures (map t_err (tasks s)))"
    by (simp only: set_failures)
  then have "failures (map t_err (tasks s)) \<noteq> []" by auto
  with f(3,7) have 3: "r = Some (WithStackTrace (MultiError (failures (map t_err (tasks s)))))"
    by (simp only: returned_error_failures if_False)
  from 1 2 3 show ?thesis by (simp add: count_list_failures)
qed


theorem operation_aborted_is_aggregated_witness:
  "\<exists>s. nukeAll demo_ks [Some ''a'', Some ''c''] sched_in_order 0 =
         Some (Some (WithStackTrace (MultiError [ApiError OperationAbortedException])), s) \<and>
       length [Some ''a'', Some ''c''] \<le> 100 \<and> Suc 0 < length [Some ''a'', Some ''c''] \<and>
       (\<forall>p. \<exists>p'. Client_DeleteStream demo_ks p ([Some ''a'', Some ''c''] ! Suc 0) =
           Some (Some OperationAbortedException, p')) \<and>
       t_err (tasks s ! Suc 0) = Some (ApiError OperationAbortedException) \<and>
       failures (map t_err (tasks s)) = [ApiError OperationAbortedException]"
proof -
  have "map_option fst (nukeAll demo_ks [Some ''a'', Some ''c''] sched_in_order 0) =
      Some (Some (WithStackTrace (MultiError [ApiError OperationAbortedException])))"
    by code_simp
  then obtain s where h: "nukeAll demo_ks [Some ''a'', Some ''c''] sched_in_order 0 =
         Some (Some (WithStackTrace (MultiError [ApiError OperationAbortedException])), s)"
    by (cases "nukeAll demo_ks [Some ''a'', Some ''c''] sched_in_order 0") auto
  have l: "length [Some ''a'', Some ''c''] \<le> 100" and j: "Suc 0 < length [Some ''a'', Some ''c'']"
    by simp_all
  have c: "\<forall>p. \<exists>p'. Client_DeleteStream demo_ks p ([Some ''a'', Some ''c''] ! Suc 0) =
           Some (Some OperationAbortedException, p')"
    by (simp add: demo_ks_def)
  from operation_aborted_is_aggregated[OF h l j c] h l j c show ?thesis
    by (intro exI[of _ s]) simp
qed





lemma rep_of_subset:
  "t \<in> set ts \<Longrightarrow> rep_of t \<subseteq># sum_list (map rep_of ts)"
proof (induction ts)
  case Nil
  then show ?case by simp
next
  case (Cons a ts)
  then show ?case
  proof (cases "t = a")
    case True
    then show ?thesis by simp
  next
    case False
    with Cons have "rep_of t \<subseteq># sum_list (map rep_of ts)" by simp
    then show ?thesis by (simp add: subset_mset.add_increasing)
  qed
qed

lemma recorded_after_report:
  assumes "inv ks ids s" and "j < length (tasks s)" and "3 \<le> pc_rank (t_pc (tasks s ! j))"
  shows "\<lparr>Identifier = aws_ToString (ids ! j), ResourceType = ''Kinesis Stream'',
           Error = t_err (tasks s ! j)\<rparr> \<in> set (reports s)"
proof -
  from assms(1) have fr: "inv_frames ks ids s" by (simp add: inv_def)
  from assms(2) have "tasks s ! j \<in> set (tasks s)" by simp
  then have "rep_of (tasks s ! j) \<subseteq># sum_list (map rep_of (tasks s))" by (rule rep_of_subset)
  with fr have "rep_of (tasks s ! j) \<subseteq># mset (reports s)" by (simp add: inv_frames_def)
  with assms(3) have "entry_of (tasks s ! j) \<in># mset (reports s)"
    by (simp add: rep_of_def)
  then show ?thesis
    using inv_frames_nth(3)[OF fr assms(2)] by (simp add: entry_of_def)
qed

text \<open>
  C9. In every state an interleaving reaches: a goroutine that is at its send, or past
  it, has its entry in the report sink already; while \<open>nukeAll\<close> collects, every
  goroutine has returned; and when \<open>nukeAll\<close> has returned on a batch of at most 100
  identifiers, it has emptied every channel and the report sink holds the entry of every
  identifier.
\<close>

theorem reports_recorded_before_return:
  assumes "run ks identifiers sched (init p0) = Some s"
  shows "(\<forall>j<length (tasks s). t_pc (tasks s ! j) \<in> {T_Send, T_Log, T_WgDone, T_Exit} \<longrightarrow>
        \<lparr>Identifier = aws_ToString (identifiers ! j), ResourceType = ''Kinesis Stream'',
          Error = t_err (tasks s ! j)\<rparr> \<in> set (reports s)) \<and>
     (\<forall>i allErrs. mainpc s = M_Collect i allErrs \<longrightarrow>
        length (tasks s) = length identifiers \<and> (\<forall>t\<in>set (tasks s). t_pc t = T_Exit)) \<and>
     (\<forall>r. mainpc s = M_Return r \<and> length identifiers \<le> 100 \<longrightarrow>
        length (reports s) = length identifiers \<and>
        (\<forall>j<length identifiers.
           errChans s ! j = Some [] \<and>
           \<lparr>Identifier = aws_ToString (identifiers ! j), ResourceType = ''Kinesis Stream'',
             Error = t_err (tasks s ! j)\<rparr> \<in> set (reports s)))"
proof (intro conjI allI impI)
  from inv_init assms have i: "inv ks identifiers s" by (rule inv_run)
  {
    fix j assume j: "j < length (tasks s)"
      and pc: "t_pc (tasks s ! j) \<in> {T_Send, T_Log, T_WgDone, T_Exit}"
    from pc have "3 \<le> pc_rank (t_pc (tasks s ! j))" by auto
    with i j show "\<lparr>Identifier = aws_ToString (identifiers ! j), ResourceType = ''Kinesis Stream'',
          Error = t_err (tasks s ! j)\<rparr> \<in> set (reports s)"
      by (rule recorded_after_report)
  }
  {
    fix i' allErrs assume m: "mainpc s = M_Collect i' allErrs"
    then have "mainpc s \<noteq> M_Start" "mainpc s \<noteq> M_Return (Some TooManyStreamsErr)" by simp_all
    from inv_started_of(2)[OF i this] m
    show "length (tasks s) = length identifiers" and "\<forall>t\<in>set (tasks s). t_pc t = T_Exit"
      by (simp_all add: inv_started_def)
  }
  {
    fix r assume m: "mainpc s = M_Return r \<and> length identifiers \<le> 100"
    then have mr: "mainpc s = M_Return r" and l: "length identifiers \<le> 100" by simp_all
    note f = returned_state[OF i mr l]
    from f(5) have "size (mset (reports s)) = size (mset (map entry_of (tasks s)))" by simp
    with f(1) show "length (reports s) = length identifiers" by simp
    fix j assume j: "j < length identifiers"
    with f(1) have jt: "j < length (tasks s)" by simp
    with f(2) have ex: "t_pc (tasks s ! j) = T_Exit" by simp
    then have "3 \<le> pc_rank (t_pc (tasks s ! j))" by simp
    with i jt show "\<lparr>Identifier = aws_ToString (identifiers ! j), ResourceType = ''Kinesis Stream'',
          Error = t_err (tasks s ! j)\<rparr> \<in> set (reports s)"
      by (rule recorded_after_report)
    from i mr l have "inv_started identifiers s" by (auto simp: inv_def split: if_splits)
    from inv_chans_nth[OF this jt] mr show "errChans s ! j = Some []"
      by (simp add: chan_of_def)
  }
qed

theorem reports_recorded_before_return_witness:
  "(\<exists>s. run demo_ks [Some ''a'', Some ''b''] sched_b_sent (init 0) = Some s \<and>
       Suc 0 < length (tasks s) \<and> t_pc (tasks s ! Suc 0) \<in> {T_Send, T_Log, T_WgDone, T_Exit} \<and>
       \<lparr>Identifier = aws_ToString ([Some ''a'', Some ''b''] ! Suc 0),
         ResourceType = ''Kinesis Stream'',
         Error = Some (ApiError ''ResourceInUseException'')\<rparr> \<in> set (reports s)) \<and>
   (\<exists>s. run demo_ks [Some ''c'', Some ''b''] sched_reversed (init 0) = Some s \<and>
       mainpc s = M_Return (Some (WithStackTrace (MultiError
          [ApiError OperationAbortedException, ApiError ''ResourceInUseException'']))) \<and>
       length [Some ''c'', Some ''b''] \<le> 100 \<and>
       length (reports s) = length [Some ''c'', Some ''b''] \<and>
       errChans s ! 0 = Some [] \<and> errChans s ! Suc 0 = Some [] \<and>
       \<lparr>Identifier = aws_ToString ([Some ''c'', Some ''b''] ! 0),
         ResourceType = ''Kinesis Stream'',
         Error = Some (ApiError OperationAbortedException)\<rparr> \<in> set (reports s) \<and>
       \<lparr>Identifier = aws_ToString ([Some ''c'', Some ''b''] ! Suc 0),
         ResourceType = ''Kinesis Stream'',
         Error = Some (ApiError ''ResourceInUseException'')\<rparr> \<in> set (reports s))"
proof (rule conjI)
  have "map_option (\<lambda>s. (length (tasks s), t_pc (tasks s ! Suc 0), t_err (tasks s ! Suc 0)))
          (run demo_ks [Some ''a'', Some ''b''] sched_b_sent (init 0)) =
        Some (2, T_Log, Some (ApiError ''ResourceInUseException''))"
    by code_simp
  then obtain s where h: "run demo_ks [Some ''a'', Some ''b''] sched_b_sent (init 0) = Some s"
    and l: "length (tasks s) = 2" and pc: "t_pc (tasks s ! Suc 0) = T_Log"
    and e: "t_err (tasks s ! Suc 0) = Some (ApiError ''ResourceInUseException'')"
    by (cases "run demo_ks [Some ''a'', Some ''b''] sched_b_sent (init 0)") auto
  from l have j: "Suc 0 < length (tasks s)" by simp
  from pc have m: "t_pc (tasks s ! Suc 0) \<in> {T_Send, T_Log, T_WgDone, T_Exit}" by simp
  from reports_recorded_before_return[OF h, THEN conjunct1, rule_format, OF j m] h j m e
  show "\<exists>s. run demo_ks [Some ''a'', Some ''b''] sched_b_sent (init 0) = Some s \<and>
       Suc 0 < length (tasks s) \<and> t_pc (tasks s ! Suc 0) \<in> {T_Send, T_Log, T_WgDone, T_Exit} \<and>
       \<lparr>Identifier = aws_ToString ([Some ''a'', Some ''b''] ! Suc 0),
         ResourceType = ''Kinesis Stream'',
         Error = Some (ApiError ''ResourceInUseException'')\<rparr> \<in> set (reports s)"
    by (intro exI[of _ s]) simp
next
  have "map_option (\<lambda>s. (mainpc s, t_err (tasks s ! 0), t_err (tasks s ! Suc 0)))
          (run demo_ks [Some ''c'', Some ''b''] sched_reversed (init 0)) =
        Some (M_Return (Some (WithStackTrace (MultiError
                [ApiError OperationAbortedException, ApiError ''ResourceInUseException'']))),
              Some (ApiError OperationAbortedException),
              Some (ApiError ''ResourceInUseException''))"
    by code_simp
  then obtain s where h: "run demo_ks [Some ''c'', Some ''b''] sched_reversed (init 0) = Some s"
    and m: "mainpc s = M_Return (Some (WithStackTrace (MultiError
          [ApiError OperationAbortedException, ApiError ''ResourceInUseException''])))"
    and e0: "t_err (tasks s ! 0) = Some (ApiError OperationAbortedException)"
    and e1: "t_err (tasks s ! Suc 0) = Some (ApiError ''ResourceInUseException'')"
    by (cases "run demo_ks [Some ''c'', Some ''b''] sched_reversed (init 0)") auto
  have l: "length [Some ''c'', Some ''b''] \<le> 100" by simp
  from m l have g: "mainpc s = M_Return (Some (WithStackTrace (MultiError
          [ApiError OperationAbortedException, ApiError ''ResourceInUseException'']))) \<and>
      length [Some ''c'', Some ''b''] \<le> 100"
    by (rule conjI)
  note t = reports_recorded_before_return[OF h, THEN conjunct2, THEN conjunct2, rule_format, OF g]
  have j0: "0 < length [Some ''c'', Some ''b'']" and j1: "Suc 0 < length [Some ''c'', Some ''b'']"
    by simp_all
  from t have n: "length (reports s) = length [Some ''c'', Some ''b'']" by (rule conjunct1)
  note a = t[THEN conjunct2, rule_format]
  from a[OF j0] a[OF j1] h m l n e0 e1
  show "\<exists>s. run demo_ks [Some ''c'', Some ''b''] sched_reversed (init 0) = Some s \<and>
       mainpc s = M_Return (Some (WithStackTrace (MultiError
          [ApiError OperationAbortedException, ApiError ''ResourceInUseException'']))) \<and>
       length [Some ''c'', Some ''b''] \<le> 100 \<and>
       length (reports s) = length [Some ''c'', Some ''b''] \<and>
       errChans s ! 0 = Some [] \<and> errChans s ! Suc 0 = Some [] \<and>
       \<lparr>Identifier = aws_ToString ([Some ''c'', Some ''b''] ! 0),
         ResourceType = ''Kinesis Stream'',
         Error = Some (ApiError OperationAbortedException)\<rparr> \<in> set (reports s) \<and>
       \<lparr>Identifier = aws_ToString ([Some ''c'', Some ''b''] ! Suc 0),
         ResourceType = ''Kinesis Stream'',
         Error = Some (ApiError ''ResourceInUseException'')\<rparr> \<in> set (reports s)"
    by (intro exI[of _ s]) simp
qed

section \<open>Termination\<close>

lemma run_append:
  "run ks ids (a @ b) s = (case run ks ids a s of None \<Rightarrow> None | Some s' \<Rightarrow> run ks ids b s')"
  by (induction a arbitrary: s) (simp_all split: option.splits)

lemma steps_done_task:
  assumes "deleteAsync_step ks j s = Some s'"
  shows "steps_done ids s' = Suc (steps_done ids s)"
proof -
  have *: "sum_list (map (\<lambda>t. pc_rank (t_pc t)) ((tasks s)[j := y])) =
      sum_list (map (\<lambda>t. pc_rank (t_pc t)) (tasks s)) + 1"
    if "j < length (tasks s)" "pc_rank (t_pc y) = pc_rank (t_pc (tasks s ! j)) + 1" for y
    using that by (rule sum_list_map_update)
  from assms show ?thesis
    by (cases rule: deleteAsync_stepE) (simp_all add: steps_done_def *)
qed

lemma steps_done_main:
  assumes i: "inv ks ids s" and st: "nukeAll_step ks ids s = Some s'"
  shows "steps_done ids s' = Suc (steps_done ids s)"
  using st
proof (cases rule: nukeAll_stepE)
  case too_many
  have "tasks s' = tasks s" "mainpc s' = M_Return (Some TooManyStreamsErr)"
    by (subst too_many(3), simp)+
  with too_many(1,2) show ?thesis by (simp add: steps_done_def)
next
  case start
  have "tasks s' = tasks s" "mainpc s' = M_Spawn 0"
    by (subst start(3), simp)+
  with start(1,2) show ?thesis by (simp add: steps_done_def)
next
  case (spawn i')
  then show ?thesis by (simp add: steps_done_def spawn_def)
next
  case (spawned i')
  then have pc: "mainpc s \<noteq> M_Start" "mainpc s \<noteq> M_Return (Some TooManyStreamsErr)"
    by simp_all
  from inv_started_of(2)[OF i pc] spawned(1,2) have "i' = length ids"
    by (simp add: inv_started_def)
  with spawned show ?thesis by (simp add: steps_done_def)
next
  case wait
  then show ?thesis by (simp add: steps_done_def)
next
  case (collect i' allErrs e buf)
  then show ?thesis by (simp add: steps_done_def)
next
  case (return i' allErrs)
  then have pc: "mainpc s \<noteq> M_Start" "mainpc s \<noteq> M_Return (Some TooManyStreamsErr)"
    by simp_all
  note r = inv_started_of[OF i pc]
  from r(2) return(1,2) inv_started_length(2)[OF r(2)] have "i' = length ids"
    by (simp add: inv_started_def)
  with return r(3) show ?thesis by (simp add: steps_done_def)
qed

lemma steps_done_step:
  "inv ks ids s \<Longrightarrow> step ks ids t s = Some s' \<Longrightarrow> steps_done ids s' = Suc (steps_done ids s)"
  by (cases t) (simp_all add: steps_done_main steps_done_task)

lemma steps_done_run:
  "inv ks ids s \<Longrightarrow> run ks ids sched s = Some s'
     \<Longrightarrow> steps_done ids s' = steps_done ids s + length sched"
proof (induction sched arbitrary: s)
  case Nil
  then show ?case by simp
next
  case (Cons t sched)
  from Cons.prems(2) obtain s1 where s1: "step ks ids t s = Some s1"
    and rest: "run ks ids sched s1 = Some s'"
    by (auto split: option.splits)
  from Cons.prems(1) s1 have "inv ks ids s1" by (rule inv_step)
  from Cons.IH[OF this rest] steps_done_step[OF Cons.prems(1) s1] show ?case by simp
qed

lemma rank_sum_le: "sum_list (map (\<lambda>t. pc_rank (t_pc t)) ts) \<le> 6 * length ts"
proof (induction ts)
  case Nil
  then show ?case by simp
next
  case (Cons t ts)
  have "pc_rank (t_pc t) \<le> 6" by (cases "t_pc t") simp_all
  with Cons show ?case by simp
qed

lemma steps_done_le:
  assumes "inv ks ids s"
  shows "steps_done ids s \<le> 8 * length ids + 4"
proof (cases "mainpc s = M_Start \<or> 100 < length ids")
  case True
  with assms have "tasks s = []" by (auto simp: inv_def idle_def split: if_splits)
  moreover from True assms have "main_done (length ids) (mainpc s) \<le> 1"
    by (auto simp: inv_def split: if_splits)
  ultimately show ?thesis by (simp add: steps_done_def)
next
  case False
  with assms have st: "inv_started ids s" by (auto simp: inv_def split: if_splits)
  then have "inv_main ids (tasks s) (mainpc s)" by (simp add: inv_started_def)
  with False have "main_done (length ids) (mainpc s) \<le> 2 * length ids + 4"
    by (cases "mainpc s") simp_all
  moreover from rank_sum_le[of "tasks s"] inv_started_length(1)[OF st]
  have "sum_list (map (\<lambda>t. pc_rank (t_pc t)) (tasks s)) \<le> 6 * length ids" by simp
  ultimately show ?thesis by (simp add: steps_done_def)
qed

lemma task_enabled:
  assumes i: "inv ks ids s" and j: "j < length (tasks s)"
    and ne: "t_pc (tasks s ! j) \<noteq> T_Exit"
    and total: "\<forall>p n. Client_DeleteStream ks p n \<noteq> None"
  shows "deleteAsync_step ks j s \<noteq> None"
proof -
  from j have t: "tasks s \<noteq> []" by auto
  note r = inv_running[OF i t]
  note cn = inv_chans_nth[OF r(2) j]
  note f = inv_frames_nth[OF r(1) j]
  from inv_started_length[OF r(2)] j have jc: "j < length (errChans s)" by simp
  show ?thesis
  proof (cases "t_pc (tasks s ! j)")
    case T_Await
    from total obtain out p' where
      "Client_DeleteStream ks (provider s) (t_streamName (tasks s ! j)) = Some (out, p')"
      by (metis option.exhaust surj_pair)
    with T_Await j show ?thesis by (simp add: deleteAsync_step_def Let_def)
  next
    case T_Send
    with cn have "errChans s ! j = Some []" by (simp add: chan_of_def)
    with T_Send j jc f(1) show ?thesis
      by (simp add: deleteAsync_step_def Let_def chan_capacity_def)
  qed (use j ne in \<open>simp_all add: deleteAsync_step_def Let_def\<close>)
qed

lemma progress:
  assumes i: "inv ks ids s" and total: "\<forall>p n. Client_DeleteStream ks p n \<noteq> None"
    and nr: "\<forall>r. mainpc s \<noteq> M_Return r"
  shows "\<exists>t. step ks ids t s \<noteq> None"
proof (cases "mainpc s")
  case M_Start
  then have "nukeAll_step ks ids s \<noteq> None" by (simp add: nukeAll_step_def Let_def)
  then show ?thesis by (intro exI[of _ Main]) simp
next
  case (M_Spawn i')
  then have "nukeAll_step ks ids s \<noteq> None" by (simp add: nukeAll_step_def)
  then show ?thesis by (intro exI[of _ Main]) simp
next
  case M_Wait
  show ?thesis
  proof (cases "wg s = 0")
    case True
    with M_Wait have "nukeAll_step ks ids s \<noteq> None" by (simp add: nukeAll_step_def)
    then show ?thesis by (intro exI[of _ Main]) simp
  next
    case False
    from M_Wait have pc: "mainpc s \<noteq> M_Start" "mainpc s \<noteq> M_Return (Some TooManyStreamsErr)"
      by simp_all
    note r = inv_started_of[OF i pc]
    from r(2) M_Wait have "wg s + sum_list (map exited (tasks s)) = int (length (tasks s))"
      by (simp add: inv_started_def)
    with False have "\<not> (\<forall>t\<in>set (tasks s). t_pc t = T_Exit)"
      using exited_none[of "tasks s"] by auto
    then obtain j where "j < length (tasks s)" "t_pc (tasks s ! j) \<noteq> T_Exit"
      by (auto simp: in_set_conv_nth)
    with i total have "deleteAsync_step ks j s \<noteq> None" by (intro task_enabled)
    then show ?thesis by (intro exI[of _ "Task j"]) simp
  qed
next
  case (M_Collect i' allErrs)
  then have pc: "mainpc s \<noteq> M_Start" "mainpc s \<noteq> M_Return (Some TooManyStreamsErr)"
    by simp_all
  note r = inv_started_of[OF i pc]
  have "nukeAll_step ks ids s \<noteq> None"
  proof (cases "i' < length (errChans s)")
    case True
    with r(2) M_Collect inv_started_length(2)[OF r(2)]
    have jt: "i' < length (tasks s)" and ex: "\<forall>t\<in>set (tasks s). t_pc t = T_Exit"
      by (simp_all add: inv_started_def)
    then have "t_pc (tasks s ! i') = T_Exit" by simp
    with inv_chans_nth[OF r(2) jt] M_Collect
    have "errChans s ! i' = Some [t_err (tasks s ! i')]" by (simp add: chan_of_def)
    with True M_Collect show ?thesis by (simp add: nukeAll_step_def)
  next
    case False
    with M_Collect show ?thesis by (simp add: nukeAll_step_def)
  qed
  then show ?thesis by (intro exI[of _ Main]) simp
next
  case (M_Return r)
  with nr show ?thesis by simp
qed

lemma can_finish:
  assumes total: "\<forall>p n. Client_DeleteStream ks p n \<noteq> None" and i: "inv ks ids s"
  shows "\<exists>sched' s' r. run ks ids sched' s = Some s' \<and> mainpc s' = M_Return r"
  using i
proof (induction "8 * length ids + 4 - steps_done ids s" arbitrary: s rule: less_induct)
  case less
  show ?case
  proof (cases "\<exists>r. mainpc s = M_Return r")
    case True
    then obtain r where "mainpc s = M_Return r" ..
    then have "run ks ids [] s = Some s \<and> mainpc s = M_Return r" by simp
    then show ?thesis by blast
  next
    case False
    with progress[OF less.prems total] obtain t s1 where s1: "step ks ids t s = Some s1"
      by auto
    from less.prems s1 have i1: "inv ks ids s1" by (rule inv_step)
    from steps_done_step[OF less.prems s1] steps_done_le[OF i1]
    have "8 * length ids + 4 - steps_done ids s1 < 8 * length ids + 4 - steps_done ids s"
      by simp
    from less.hyps[OF this i1] obtain sched' s' r where
      "run ks ids sched' s1 = Some s'" "mainpc s' = M_Return r" by blast
    with s1 have "run ks ids (t # sched') s = Some s' \<and> mainpc s' = M_Return r" by simp
    then show ?thesis by blast
  qed
qed


text \<open>
  C8. Provided every \<open>DeleteStream\<close> call returns: no interleaving has more than
  \<open>8 n + 4\<close> steps for \<open>n\<close> identifiers, and every interleaving, as far as it has
  come, can be continued to the return of \<open>nukeAll\<close>; a state before the return
  always has a thread that can move. Goroutine \<open>j\<close> owns channel \<open>j\<close>, whose buffer
  holds nothing or the one outcome of that goroutine; at its send the buffer is empty, so
  the send does not block; and at step \<open>i\<close> of the collection loop channel \<open>i\<close> holds
  exactly the outcome of goroutine \<open>i\<close>, so the receive does not block.
\<close>

theorem nukeAll_terminates:
  assumes "\<forall>p n. Client_DeleteStream ks p n \<noteq> None"
    and "run ks identifiers sched (init p0) = Some s"
  shows "length sched \<le> 8 * length identifiers + 4 \<and>
     (\<exists>sched' r s'. nukeAll ks identifiers (sched @ sched') p0 = Some (r, s')) \<and>
     ((\<forall>r. mainpc s \<noteq> M_Return r) \<longrightarrow> (\<exists>t. step ks identifiers t s \<noteq> None)) \<and>
     (\<forall>j<length (tasks s).
        t_errChan (tasks s ! j) = j \<and>
        (errChans s ! j = Some [] \<or> errChans s ! j = Some [t_err (tasks s ! j)]) \<and>
        (t_pc (tasks s ! j) = T_Send \<longrightarrow>
           errChans s ! j = Some [] \<and> deleteAsync_step ks j s \<noteq> None)) \<and>
     (\<forall>i allErrs. mainpc s = M_Collect i allErrs \<and> i < length identifiers \<longrightarrow>
        errChans s ! i = Some [t_err (tasks s ! i)] \<and> nukeAll_step ks identifiers s \<noteq> None)"
proof (intro conjI allI impI)
  from inv_init assms(2) have i: "inv ks identifiers s" by (rule inv_run)
  from steps_done_run[OF inv_init assms(2)] steps_done_le[OF i]
  show "length sched \<le> 8 * length identifiers + 4"
    by (simp add: steps_done_def init_def)
  from can_finish[OF assms(1) i] obtain sched' s' r where
    "run ks identifiers sched' s = Some s'" "mainpc s' = M_Return r" by blast
  with assms(2) have "nukeAll ks identifiers (sched @ sched') p0 = Some (r, s')"
    by (simp add: nukeAll_def run_append)
  then show "\<exists>sched' r s'. nukeAll ks identifiers (sched @ sched') p0 = Some (r, s')"
    by blast
  {
    assume "\<forall>r. mainpc s \<noteq> M_Return r"
    with i assms(1) show "\<exists>t. step ks identifiers t s \<noteq> None" by (intro progress)
  }
  {
    fix j assume j: "j < length (tasks s)"
    then have t: "tasks s \<noteq> []" by auto
    note r = inv_running[OF i t]
    from inv_frames_nth(1)[OF r(1) j] show "t_errChan (tasks s ! j) = j" .
    from inv_chans_nth[OF r(2) j]
    show "errChans s ! j = Some [] \<or> errChans s ! j = Some [t_err (tasks s ! j)]"
      by (simp add: chan_of_def)
    assume pc: "t_pc (tasks s ! j) = T_Send"
    with inv_chans_nth[OF r(2) j] show "errChans s ! j = Some []" by (simp add: chan_of_def)
    from pc have "t_pc (tasks s ! j) \<noteq> T_Exit" by simp
    with i j assms(1) show "deleteAsync_step ks j s \<noteq> None" by (intro task_enabled)
  }
  {
    fix i' allErrs assume m: "mainpc s = M_Collect i' allErrs \<and> i' < length identifiers"
    then have pc: "mainpc s \<noteq> M_Start" "mainpc s \<noteq> M_Return (Some TooManyStreamsErr)"
      by simp_all
    note r = inv_started_of[OF i pc]
    from r(2) m have jt: "i' < length (tasks s)" and ex: "\<forall>t\<in>set (tasks s). t_pc t = T_Exit"
      by (simp_all add: inv_started_def)
    then have "t_pc (tasks s ! i') = T_Exit" by simp
    with inv_chans_nth[OF r(2) jt] m
    show c: "errChans s ! i' = Some [t_err (tasks s ! i')]" by (simp add: chan_of_def)
    from m inv_started_length(2)[OF r(2)] have "i' < length (errChans s)" by simp
    with c m show "nukeAll_step ks identifiers s \<noteq> None" by (simp add: nukeAll_step_def)
  }
qed

theorem nukeAll_terminates_witness:
  "(\<forall>p n. Client_DeleteStream demo_ks p n \<noteq> None) \<and>
   (\<exists>s. run demo_ks [Some ''a'', Some ''b''] sched_b_sent (init 0) = Some s \<and>
      length sched_b_sent \<le> 8 * length [Some ''a'', Some ''b''] + 4 \<and>
      (\<exists>sched' r s'. nukeAll demo_ks [Some ''a'', Some ''b''] (sched_b_sent @ sched') 0 =
         Some (r, s')))"
proof -
  have c: "\<forall>p n. Client_DeleteStream demo_ks p n \<noteq> None" by (simp add: demo_ks_def)
  have "map_option mainpc (run demo_ks [Some ''a'', Some ''b''] sched_b_sent (init 0)) =
      Some M_Wait"
    by code_simp
  then obtain s where h: "run demo_ks [Some ''a'', Some ''b''] sched_b_sent (init 0) = Some s"
    by (cases "run demo_ks [Some ''a'', Some ''b''] sched_b_sent (init 0)") auto
  from nukeAll_terminates[OF c h] c h show ?thesis by blast
qed

section \<open>Concurrent launch\<close>

lemma flight_start:
  "length ids \<le> 100 \<Longrightarrow>
     nukeAll_step ks ids (init p0) = Some (flight_state ks ids p0 0 0 (M_Spawn 0))"
  by (simp add: nukeAll_step_def init_def flight_state_def start_logs_def Let_def)

lemma replicate_update:
  assumes "k < n"
  shows "(replicate k (Some []) @ replicate (n - k) None)[k := Some []] =
     replicate (Suc k) (Some []) @ replicate (n - Suc k) None"
proof -
  from assms have "n - k = Suc (n - Suc k)" by simp
  then have e: "replicate (n - k) None = None # replicate (n - Suc k) None"
    by (simp only: replicate_Suc)
  show ?thesis
    unfolding e by (simp add: list_update_append replicate_app_Cons_same)
qed

lemma flight_spawn:
  "k < length ids \<Longrightarrow>
     nukeAll_step ks ids (flight_state ks ids p0 k 0 (M_Spawn k)) =
       Some (flight_state ks ids p0 (Suc k) 0 (M_Spawn (Suc k)))"
  by (simp add: nukeAll_step_def flight_state_def replicate_update in_flight_def)

lemma flight_spawned:
  "nukeAll_step ks ids (flight_state ks ids p0 (length ids) 0 (M_Spawn (length ids))) =
       Some (flight_state ks ids p0 (length ids) 0 M_Wait)"
  by (simp add: nukeAll_step_def flight_state_def)

lemma in_flight_update:
  assumes "m < n"
  shows "(map (in_flight ids m) [0..<n])[m := (in_flight ids m m)\<lparr>t_pc := T_Await\<rparr>] =
     map (in_flight ids (Suc m)) [0..<n]"
proof (rule nth_equalityI)
  show "length ((map (in_flight ids m) [0..<n])[m := (in_flight ids m m)\<lparr>t_pc := T_Await\<rparr>]) =
      length (map (in_flight ids (Suc m)) [0..<n])"
    by simp
next
  fix i
  assume "i < length ((map (in_flight ids m) [0..<n])[m := (in_flight ids m m)\<lparr>t_pc := T_Await\<rparr>])"
  then have "i < n" by simp
  then show "(map (in_flight ids m) [0..<n])[m := (in_flight ids m m)\<lparr>t_pc := T_Await\<rparr>] ! i =
      map (in_flight ids (Suc m)) [0..<n] ! i"
    by (cases "i = m") (simp_all add: in_flight_def)
qed

lemma flight_issue:
  assumes "m < length ids"
  shows "deleteAsync_step ks m (flight_state ks ids p0 (length ids) m M_Wait) =
       Some (flight_state ks ids p0 (length ids) (Suc m) M_Wait)"
proof -
  have "t_pc (in_flight ids m m) = T_DeleteStream" "t_streamName (in_flight ids m m) = ids ! m"
    by (simp_all add: in_flight_def spawn_def)
  with assms show ?thesis
    by (simp add: deleteAsync_step_def flight_state_def Let_def in_flight_update
        take_Suc_conv_app_nth)
qed

lemma run_spawns:
  "k \<le> length ids \<Longrightarrow>
     run ks ids (replicate k Main) (flight_state ks ids p0 0 0 (M_Spawn 0)) =
       Some (flight_state ks ids p0 k 0 (M_Spawn k))"
proof (induction k)
  case 0
  show ?case by simp
next
  case (Suc k)
  have "replicate (Suc k) Main = replicate k Main @ [Main]"
    by (simp add: replicate_append_same)
  with Suc show ?case by (simp add: run_append flight_spawn del: replicate_Suc)
qed

lemma run_issues:
  "m \<le> length ids \<Longrightarrow>
     run ks ids (map Task [0..<m]) (flight_state ks ids p0 (length ids) 0 M_Wait) =
       Some (flight_state ks ids p0 (length ids) m M_Wait)"
proof (induction m)
  case 0
  show ?case by simp
next
  case (Suc m)
  then show ?case by (simp add: run_append flight_issue)
qed

lemma run_launch_all:
  assumes "length ids \<le> 100"
  shows "run ks ids (launch_all (length ids)) (init p0) =
     Some (flight_state ks ids p0 (length ids) (length ids) M_Wait)"
proof -
  have "run ks ids (replicate (length ids) Main @ Main # map Task [0..<length ids])
          (flight_state ks ids p0 0 0 (M_Spawn 0)) =
        Some (flight_state ks ids p0 (length ids) (length ids) M_Wait)"
    by (simp add: run_append run_spawns flight_spawned run_issues)
  with assms show ?thesis by (simp add: launch_all_def flight_start)
qed

lemma flight_names:
  "map (t_streamName \<circ> in_flight ids (length ids)) [0..<length ids] = ids"
proof -
  have "map (t_streamName \<circ> in_flight ids (length ids)) [0..<length ids] =
      map (nth ids) [0..<length ids]"
    by (simp add: in_flight_def spawn_def)
  then show ?thesis by (simp only: map_nth)
qed

lemma exited_some_not:
  assumes "\<exists>t\<in>set ts. t_pc t \<noteq> T_Exit"
  shows "sum_list (map exited ts) \<noteq> int (length ts)"
  using assms exited_all[of ts] by blast

text \<open>
  C7. For a batch of at most 100 identifiers: \<open>nukeAll\<close> can launch a goroutine for
  every identifier without any of them having moved, and all the delete calls can then
  be outstanding at once, none answered, whatever the size of the batch, while
  \<open>nukeAll\<close> waits. In every state an interleaving reaches, the goroutines launched are
  those of the first identifiers, one each, each with its own channel; \<open>nukeAll\<close>
  cannot pass \<^verbatim>\<open>wg.Wait()\<close> while a goroutine has not returned; and when it collects
  or has returned, a goroutine was launched for every identifier and all have returned.
  Concurrency is that of interleavings; time is not modelled.
\<close>

theorem nukeAll_launches_all_then_waits:
  assumes "length identifiers \<le> 100" and "run ks identifiers sched (init p0) = Some s"
  shows "(\<exists>s1. run ks identifiers (launch_all (length identifiers)) (init p0) = Some s1 \<and>
            map t_streamName (tasks s1) = identifiers \<and>
            (\<forall>t\<in>set (tasks s1). t_pc t = T_Await) \<and>
            requests s1 = identifiers \<and> reports s1 = [] \<and> provider s1 = p0 \<and>
            mainpc s1 = M_Wait \<and> wg s1 = int (length identifiers)) \<and>
     length (tasks s) \<le> length identifiers \<and>
     map t_streamName (tasks s) = take (length (tasks s)) identifiers \<and>
     map t_errChan (tasks s) = [0..<length (tasks s)] \<and>
     (mainpc s = M_Wait \<and> (\<exists>t\<in>set (tasks s). t_pc t \<noteq> T_Exit) \<longrightarrow>
        nukeAll_step ks identifiers s = None) \<and>
     ((\<exists>i allErrs. mainpc s = M_Collect i allErrs) \<or> (\<exists>r. mainpc s = M_Return r) \<longrightarrow>
        length (tasks s) = length identifiers \<and> (\<forall>t\<in>set (tasks s). t_pc t = T_Exit))"
proof (intro conjI impI)
  let ?s1 = "flight_state ks identifiers p0 (length identifiers) (length identifiers) M_Wait"
  have "map t_streamName (tasks ?s1) = identifiers"
    by (simp add: flight_state_def flight_names)
  moreover have "\<forall>t\<in>set (tasks ?s1). t_pc t = T_Await"
    by (simp add: flight_state_def in_flight_def)
  ultimately show "\<exists>s1. run ks identifiers (launch_all (length identifiers)) (init p0) = Some s1 \<and>
            map t_streamName (tasks s1) = identifiers \<and>
            (\<forall>t\<in>set (tasks s1). t_pc t = T_Await) \<and>
            requests s1 = identifiers \<and> reports s1 = [] \<and> provider s1 = p0 \<and>
            mainpc s1 = M_Wait \<and> wg s1 = int (length identifiers)"
    using run_launch_all[OF assms(1), of ks p0]
    by (intro exI[of _ ?s1]) (simp add: flight_state_def)
  from inv_init assms(2) have i: "inv ks identifiers s" by (rule inv_run)
  then have fr: "inv_frames ks identifiers s" by (simp add: inv_def)
  from fr show "map t_streamName (tasks s) = take (length (tasks s)) identifiers"
    and "map t_errChan (tasks s) = [0..<length (tasks s)]"
    by (simp_all add: inv_frames_def)
  show "length (tasks s) \<le> length identifiers"
  proof (cases "tasks s = []")
    case False
    from inv_started_length(1)[OF inv_running(2)[OF i False]] show ?thesis .
  qed simp
  {
    assume a: "mainpc s = M_Wait \<and> (\<exists>t\<in>set (tasks s). t_pc t \<noteq> T_Exit)"
    then have pc: "mainpc s \<noteq> M_Start" "mainpc s \<noteq> M_Return (Some TooManyStreamsErr)"
      by simp_all
    note r = inv_started_of[OF i pc]
    from r(2) a have "wg s + sum_list (map exited (tasks s)) = int (length (tasks s))"
      by (simp add: inv_started_def)
    with exited_some_not[of "tasks s"] a have "wg s \<noteq> 0" by auto
    with a show "nukeAll_step ks identifiers s = None" by (simp add: nukeAll_step_def)
  }
  {
    assume a: "(\<exists>i allErrs. mainpc s = M_Collect i allErrs) \<or> (\<exists>r. mainpc s = M_Return r)"
    have "length (tasks s) = length identifiers \<and> (\<forall>t\<in>set (tasks s). t_pc t = T_Exit)"
    proof (cases "\<exists>r. mainpc s = M_Return r")
      case True
      then obtain r where "mainpc s = M_Return r" ..
      from returned_state(1,2)[OF i this assms(1)] show ?thesis by simp
    next
      case False
      with a obtain i' allErrs where m: "mainpc s = M_Collect i' allErrs" by blast
      then have pc: "mainpc s \<noteq> M_Start" "mainpc s \<noteq> M_Return (Some TooManyStreamsErr)"
        by simp_all
      from inv_started_of(2)[OF i pc] m show ?thesis by (simp add: inv_started_def)
    qed
    then show "length (tasks s) = length identifiers"
      and "\<forall>t\<in>set (tasks s). t_pc t = T_Exit"
      by simp_all
  }
qed


theorem nukeAll_launches_all_then_waits_witness:
  "length [Some ''a'', Some ''b''] \<le> 100 \<and>
   (\<exists>s. run demo_ks [Some ''a'', Some ''b''] sched_b_sent (init 0) = Some s \<and>
      mainpc s = M_Wait \<and> map t_pc (tasks s) = [T_DeleteStream, T_Log] \<and>
      nukeAll_step demo_ks [Some ''a'', Some ''b''] s = None) \<and>
   (\<exists>s. run demo_ks [Some ''a'', Some ''b''] sched_reversed (init 0) = Some s \<and>
      mainpc s = M_Return (Some (WithStackTrace (MultiError [ApiError ''ResourceInUseException'']))) \<and>
      length (tasks s) = length [Some ''a'', Some ''b''] \<and>
      t_pc (tasks s ! 0) = T_Exit \<and> t_pc (tasks s ! Suc 0) = T_Exit) \<and>
   (\<exists>s1. run demo_ks [Some ''a'', Some ''b''] (launch_all (length [Some ''a'', Some ''b'']))
            (init 0) = Some s1 \<and>
      map t_streamName (tasks s1) = [Some ''a'', Some ''b''] \<and>
      t_pc (tasks s1 ! 0) = T_Await \<and> t_pc (tasks s1 ! Suc 0) = T_Await \<and>
      requests s1 = [Some ''a'', Some ''b''] \<and> reports s1 = [] \<and> mainpc s1 = M_Wait)"
proof (intro conjI)
  show l: "length [Some ''a'', Some ''b''] \<le> 100" by simp
  have "map_option (\<lambda>s. (mainpc s, map t_pc (tasks s)))
          (run demo_ks [Some ''a'', Some ''b''] sched_b_sent (init 0)) =
      Some (M_Wait, [T_DeleteStream, T_Log])"
    by code_simp
  then obtain s where h: "run demo_ks [Some ''a'', Some ''b''] sched_b_sent (init 0) = Some s"
    and m: "mainpc s = M_Wait" and p: "map t_pc (tasks s) = [T_DeleteStream, T_Log]"
    by (cases "run demo_ks [Some ''a'', Some ''b''] sched_b_sent (init 0)") auto
  from p have "T_Log \<in> set (map t_pc (tasks s))" by simp
  then obtain x where x: "x \<in> set (tasks s)" "t_pc x = T_Log" by auto
  from x(2) have "t_pc x \<noteq> T_Exit" by simp
  with x(1) have "\<exists>t\<in>set (tasks s). t_pc t \<noteq> T_Exit" by (rule bexI[rotated])
  with m have g: "mainpc s = M_Wait \<and> (\<exists>t\<in>set (tasks s). t_pc t \<noteq> T_Exit)" by simp
  note t = nukeAll_launches_all_then_waits[OF l h]
  from t g have b: "nukeAll_step demo_ks [Some ''a'', Some ''b''] s = None" by blast
  from h m p b
  show "\<exists>s. run demo_ks [Some ''a'', Some ''b''] sched_b_sent (init 0) = Some s \<and>
      mainpc s = M_Wait \<and> map t_pc (tasks s) = [T_DeleteStream, T_Log] \<and>
      nukeAll_step demo_ks [Some ''a'', Some ''b''] s = None"
    by (intro exI[of _ s] conjI)
  have "map_option mainpc (run demo_ks [Some ''a'', Some ''b''] sched_reversed (init 0)) =
      Some (M_Return (Some (WithStackTrace (MultiError [ApiError ''ResourceInUseException'']))))"
    by code_simp
  then obtain s2 where h2: "run demo_ks [Some ''a'', Some ''b''] sched_reversed (init 0) = Some s2"
    and m2: "mainpc s2 =
      M_Return (Some (WithStackTrace (MultiError [ApiError ''ResourceInUseException''])))"
    by (cases "run demo_ks [Some ''a'', Some ''b''] sched_reversed (init 0)") auto
  note t2 = nukeAll_launches_all_then_waits[OF l h2]
  from m2 have "(\<exists>i allErrs. mainpc s2 = M_Collect i allErrs) \<or> (\<exists>r. mainpc s2 = M_Return r)"
    by simp
  with t2 have n2: "length (tasks s2) = length [Some ''a'', Some ''b'']"
    and x2: "\<forall>t\<in>set (tasks s2). t_pc t = T_Exit"
    by blast+
  from n2 have "tasks s2 ! 0 \<in> set (tasks s2)" "tasks s2 ! Suc 0 \<in> set (tasks s2)"
    by simp_all
  with x2 have "t_pc (tasks s2 ! 0) = T_Exit" "t_pc (tasks s2 ! Suc 0) = T_Exit" by blast+
  with h2 m2 n2
  show "\<exists>s. run demo_ks [Some ''a'', Some ''b''] sched_reversed (init 0) = Some s \<and>
      mainpc s = M_Return (Some (WithStackTrace (MultiError [ApiError ''ResourceInUseException'']))) \<and>
      length (tasks s) = length [Some ''a'', Some ''b''] \<and>
      t_pc (tasks s ! 0) = T_Exit \<and> t_pc (tasks s ! Suc 0) = T_Exit"
    by (intro exI[of _ s2] conjI)
  from t[THEN conjunct1] obtain s1 where
    c: "run demo_ks [Some ''a'', Some ''b''] (launch_all (length [Some ''a'', Some ''b'']))
            (init 0) = Some s1 \<and>
        map t_streamName (tasks s1) = [Some ''a'', Some ''b''] \<and>
        (\<forall>t\<in>set (tasks s1). t_pc t = T_Await) \<and>
        requests s1 = [Some ''a'', Some ''b''] \<and> reports s1 = [] \<and> provider s1 = 0 \<and>
        mainpc s1 = M_Wait \<and> wg s1 = int (length [Some ''a'', Some ''b''])" ..
  from c have
    r1: "run demo_ks [Some ''a'', Some ''b''] (launch_all (length [Some ''a'', Some ''b'']))
            (init 0) = Some s1"
    and n1: "map t_streamName (tasks s1) = [Some ''a'', Some ''b'']"
    and a1: "\<forall>t\<in>set (tasks s1). t_pc t = T_Await"
    and q1: "requests s1 = [Some ''a'', Some ''b'']" and p1: "reports s1 = []"
    and m1: "mainpc s1 = M_Wait"
    by simp_all
  from n1 have "length (map t_streamName (tasks s1)) = 2" by simp
  then have "length (tasks s1) = 2" by simp
  then have "tasks s1 ! 0 \<in> set (tasks s1)" "tasks s1 ! Suc 0 \<in> set (tasks s1)"
    by simp_all
  with a1 have "t_pc (tasks s1 ! 0) = T_Await" "t_pc (tasks s1 ! Suc 0) = T_Await" by blast+
  with r1 n1 q1 p1 m1
  show "\<exists>s1. run demo_ks [Some ''a'', Some ''b''] (launch_all (length [Some ''a'', Some ''b'']))
            (init 0) = Some s1 \<and>
      map t_streamName (tasks s1) = [Some ''a'', Some ''b''] \<and>
      t_pc (tasks s1 ! 0) = T_Await \<and> t_pc (tasks s1 ! Suc 0) = T_Await \<and>
      requests s1 = [Some ''a'', Some ''b''] \<and> reports s1 = [] \<and> mainpc s1 = M_Wait"
    by (intro exI[of _ s1] conjI)
qed

end
